theory Spec2Isabelle
  imports
    Complex_Main
    "HOL-Library.Sublist"
    "HOL-Library.List_Lexorder"
    "HOL-Library.Char_ord"
    "HOL-Library.Product_Lexorder"
    "HOL-Library.Multiset"
begin

section \<open>Python strings and dictionaries\<close>

text \<open>
  A Python \<open>str\<close> is modelled as a \<^typ>\<open>string\<close>: a list of 8-bit characters, each read
  as the code point of the same number (U+0000 to U+00FF). Strings holding a code point
  above U+00FF are outside the model. Within that range \<open>str.isspace\<close> holds for
  U+0009..U+000D, U+001C..U+0020, U+0085 and U+00A0, and \<open>str.strip()\<close> removes
  such characters from both ends.
\<close>

definition py_isspace :: "char \<Rightarrow> bool" where
  "py_isspace c =
     (let n = (of_char c :: nat)
      in (9 \<le> n \<and> n \<le> 13) \<or> (28 \<le> n \<and> n \<le> 32) \<or> n = 133 \<or> n = 160)"

definition py_strip :: "string \<Rightarrow> string" where
  "py_strip s = rev (dropWhile py_isspace (rev (dropWhile py_isspace s)))"

text \<open>
  A \<open>dict[str, str]\<close> is a finite map; \<open>d.get(k, default)\<close> is \<open>dict_get\<close>.
\<close>

type_synonym pydict = "string \<rightharpoonup> string"

definition dict_get :: "pydict \<Rightarrow> string \<Rightarrow> string \<Rightarrow> string" where
  "dict_get d k dflt = (case d k of None \<Rightarrow> dflt | Some v \<Rightarrow> v)"

text \<open>
  The exceptions the modelled functions raise; a function that can raise returns a sum,
  \<open>Inl\<close> of the exception or \<open>Inr\<close> of its result. \<open>RuntimeError\<close> carries its message.
\<close>

datatype py_error = ZeroDivisionError | ValueError | RuntimeError string

section \<open>The store (database.py)\<close>

text \<open>
  Each table is the list of its rows in insertion order. Every method of
  \<open>DayflowWindowsDatabase\<close> runs under the instance lock on a connection of its own and
  commits before it returns, so a method is a function from the database before the call
  to the database after it. An \<open>INTEGER PRIMARY KEY AUTOINCREMENT\<close> column takes one more
  than the larger of the largest row id in the table and the table's entry in
  \<open>sqlite_sequence\<close>, which is kept beside the rows. The text columns are compared as
  SQLite's default collation does, byte by byte, which on the modelled strings is the
  lexicographic order of the code points.
\<close>

record screenshot_row =
  shot_id :: int
  shot_captured_at :: string
  shot_file_path :: string
  shot_file_size :: int
  shot_window_title :: string
  shot_process_name :: string

record card_row =
  row_id :: int
  row_day :: string
  row_start_time :: string
  row_end_time :: string
  row_title :: string
  row_summary :: string
  row_category :: string

record summary_row =
  sum_summary :: string
  sum_updated_at :: string

record database =
  screenshots :: "screenshot_row list"
  screenshots_seq :: int
  ai_timeline_cards :: "card_row list"
  ai_timeline_cards_seq :: int
  ai_daily_summaries :: "string \<rightharpoonup> summary_row"

record AITimelineCard =
  card_id :: int
  card_day :: string
  card_start :: string
  card_end :: string
  card_title :: string
  card_summary :: string
  card_category :: string

definition next_rowid :: "int list \<Rightarrow> int \<Rightarrow> int" where
  "next_rowid ids seq = fold max ids seq + 1"

text \<open>The \<open>INSERT INTO ai_timeline_cards\<close> of the loop over \<open>cards\<close>.\<close>

definition insert_card :: "string \<Rightarrow> pydict \<Rightarrow> database \<Rightarrow> database" where
  "insert_card day c db =
     (let i = next_rowid (map row_id (ai_timeline_cards db)) (ai_timeline_cards_seq db)
      in db\<lparr>ai_timeline_cards := ai_timeline_cards db @
               [\<lparr>row_id = i, row_day = day,
                 row_start_time = py_strip (dict_get c ''start'' ''''),
                 row_end_time = py_strip (dict_get c ''end'' ''''),
                 row_title = py_strip (dict_get c ''title'' ''''),
                 row_summary = py_strip (dict_get c ''summary'' ''''),
                 row_category = py_strip (dict_get c ''category'' '''')\<rparr>],
             ai_timeline_cards_seq := i\<rparr>)"

text \<open>
  \<open>replace_ai_timeline_for_day(day, cards, daily_summary)\<close>; \<open>now\<close> is the text of the
  clock reading taken at the start of the call.
\<close>

definition replace_ai_timeline_for_day ::
  "database \<Rightarrow> string \<Rightarrow> pydict list \<Rightarrow> string \<Rightarrow> string \<Rightarrow> database" where
  "replace_ai_timeline_for_day db day cards daily_summary now =
     (let db1 = db\<lparr>ai_timeline_cards := filter (\<lambda>r. row_day r \<noteq> day) (ai_timeline_cards db)\<rparr>;
          db2 = fold (insert_card day) cards db1
      in db2\<lparr>ai_daily_summaries := (ai_daily_summaries db2)
                 (day \<mapsto> \<lparr>sum_summary = py_strip daily_summary, sum_updated_at = now\<rparr>)\<rparr>)"

definition row_to_card :: "card_row \<Rightarrow> AITimelineCard" where
  "row_to_card r =
     \<lparr>card_id = row_id r, card_day = row_day r, card_start = row_start_time r,
      card_end = row_end_time r, card_title = row_title r, card_summary = row_summary r,
      card_category = row_category r\<rparr>"

definition list_ai_timeline_for_day :: "database \<Rightarrow> string \<Rightarrow> AITimelineCard list" where
  "list_ai_timeline_for_day db day =
     map row_to_card
       (sort_key (\<lambda>r. (row_start_time r, row_id r))
          (filter (\<lambda>r. row_day r = day) (ai_timeline_cards db)))"

definition get_ai_daily_summary :: "database \<Rightarrow> string \<Rightarrow> string" where
  "get_ai_daily_summary db day =
     (case ai_daily_summaries db day of None \<Rightarrow> '''' | Some r \<Rightarrow> sum_summary r)"

text \<open>
  A card read by title, start, end and category: as the caller passed it, as the store
  writes it, and as the store returns it.
\<close>

definition given_fields :: "pydict \<Rightarrow> string \<times> string \<times> string \<times> string" where
  "given_fields c =
     (dict_get c ''title'' '''', dict_get c ''start'' '''', dict_get c ''end'' '''',
      dict_get c ''category'' '''')"

definition stored_fields :: "pydict \<Rightarrow> string \<times> string \<times> string \<times> string" where
  "stored_fields c =
     (py_strip (dict_get c ''title'' ''''), py_strip (dict_get c ''start'' ''''),
      py_strip (dict_get c ''end'' ''''), py_strip (dict_get c ''category'' ''''))"

definition card_fields :: "AITimelineCard \<Rightarrow> string \<times> string \<times> string \<times> string" where
  "card_fields c = (card_title c, card_start c, card_end c, card_category c)"

definition fields_start :: "string \<times> string \<times> string \<times> string \<Rightarrow> string" where
  "fields_start f = fst (snd f)"

definition empty_database :: database where
  "empty_database =
     \<lparr>screenshots = [], screenshots_seq = 0, ai_timeline_cards = [],
      ai_timeline_cards_seq = 0, ai_daily_summaries = Map.empty\<rparr>"

section \<open>Replacing a day's cards\<close>

lemma insert_card_other_tables:
  "screenshots (insert_card day c db) = screenshots db"
  "screenshots_seq (insert_card day c db) = screenshots_seq db"
  "ai_daily_summaries (insert_card day c db) = ai_daily_summaries db"
  by (simp_all add: insert_card_def Let_def)

lemma fold_insert_card_other_tables:
  "screenshots (fold (insert_card day) cards db) = screenshots db \<and>
   screenshots_seq (fold (insert_card day) cards db) = screenshots_seq db \<and>
   ai_daily_summaries (fold (insert_card day) cards db) = ai_daily_summaries db"
  by (induction cards arbitrary: db) (simp_all add: insert_card_other_tables)

lemma fold_max_ge: "(s::int) \<le> fold max ids s"
  by (induction ids arbitrary: s) (auto intro: order_trans [OF max.cobounded2])

lemma fold_max_mem: "(i::int) \<in> set ids \<Longrightarrow> i \<le> fold max ids s"
proof (induction ids arbitrary: s)
  case Nil
  then show ?case by simp
next
  case (Cons a ids)
  show ?case
  proof (cases "i = a")
    case True
    have "a \<le> max a s" by simp
    also have "\<dots> \<le> fold max ids (max a s)" by (rule fold_max_ge)
    finally show ?thesis using True by simp
  next
    case False
    with Cons show ?thesis by simp
  qed
qed

lemma next_rowid_fresh: "i \<in> set ids \<Longrightarrow> i < next_rowid ids seq"
  using fold_max_mem [of i ids seq] by (simp add: next_rowid_def)

text \<open>
  The rows the loop appends: each carries the day, the stripped fields of its card and a
  row id above every id already in the table, so the new ids increase along the list.
\<close>

lemma fold_insert_card_rows:
  "\<exists>rows. ai_timeline_cards (fold (insert_card day) cards db) = ai_timeline_cards db @ rows \<and>
     (\<forall>r \<in> set rows. row_day r = day) \<and>
     map (card_fields \<circ> row_to_card) rows = map stored_fields cards \<and>
     sorted_wrt (<) (map row_id rows) \<and>
     (\<forall>r \<in> set rows. \<forall>i \<in> set (map row_id (ai_timeline_cards db)). i < row_id r)"
proof (induction cards arbitrary: db)
  case Nil
  show ?case by simp
next
  case (Cons c cards)
  let ?i = "next_rowid (map row_id (ai_timeline_cards db)) (ai_timeline_cards_seq db)"
  let ?r = "\<lparr>row_id = ?i, row_day = day,
             row_start_time = py_strip (dict_get c ''start'' ''''),
             row_end_time = py_strip (dict_get c ''end'' ''''),
             row_title = py_strip (dict_get c ''title'' ''''),
             row_summary = py_strip (dict_get c ''summary'' ''''),
             row_category = py_strip (dict_get c ''category'' '''')\<rparr>"
  let ?db = "insert_card day c db"
  have tbl: "ai_timeline_cards ?db = ai_timeline_cards db @ [?r]"
    by (simp add: insert_card_def Let_def)
  from Cons.IH [of ?db] obtain rows where
    app: "ai_timeline_cards (fold (insert_card day) cards ?db) = ai_timeline_cards ?db @ rows"
    and days: "\<forall>r \<in> set rows. row_day r = day"
    and flds: "map (card_fields \<circ> row_to_card) rows = map stored_fields cards"
    and incr: "sorted_wrt (<) (map row_id rows)"
    and above: "\<forall>r \<in> set rows. \<forall>i \<in> set (map row_id (ai_timeline_cards ?db)). i < row_id r"
    by blast
  have fresh: "\<forall>i \<in> set (map row_id (ai_timeline_cards db)). i < ?i"
    by (blast intro: next_rowid_fresh)
  have 1: "ai_timeline_cards (fold (insert_card day) (c # cards) db) =
             ai_timeline_cards db @ (?r # rows)"
    using app tbl by simp
  have 2: "\<forall>r \<in> set (?r # rows). row_day r = day"
    using days by simp
  have 3: "map (card_fields \<circ> row_to_card) (?r # rows) = map stored_fields (c # cards)"
    using flds by (simp add: card_fields_def row_to_card_def stored_fields_def)
  have 4: "sorted_wrt (<) (map row_id (?r # rows))"
    using incr above tbl by simp
  have 5: "\<forall>r \<in> set (?r # rows). \<forall>i \<in> set (map row_id (ai_timeline_cards db)). i < row_id r"
    using fresh above tbl by auto
  from 1 2 3 4 5 show ?case by blast
qed

text \<open>
  C10. \<open>replace_ai_timeline_for_day(d, cs, s)\<close> leaves every other day as it was: for
  \<open>d' \<noteq> d\<close> the rows of \<open>ai_timeline_cards\<close> for \<open>d'\<close>, the cards listed for \<open>d'\<close>, the
  row of \<open>ai_daily_summaries\<close> for \<open>d'\<close> and the summary read for \<open>d'\<close> are the same
  after the call as before it.
\<close>

theorem replace_ai_timeline_other_days_unchanged:
  assumes "d' \<noteq> d"
  shows "filter (\<lambda>r. row_day r = d') (ai_timeline_cards (replace_ai_timeline_for_day db d cs s now)) =
           filter (\<lambda>r. row_day r = d') (ai_timeline_cards db) \<and>
         list_ai_timeline_for_day (replace_ai_timeline_for_day db d cs s now) d' =
           list_ai_timeline_for_day db d' \<and>
         ai_daily_summaries (replace_ai_timeline_for_day db d cs s now) d' =
           ai_daily_summaries db d' \<and>
         get_ai_daily_summary (replace_ai_timeline_for_day db d cs s now) d' =
           get_ai_daily_summary db d'"
proof -
  let ?db1 = "db\<lparr>ai_timeline_cards := filter (\<lambda>r. row_day r \<noteq> d) (ai_timeline_cards db)\<rparr>"
  let ?db2 = "fold (insert_card d) cs ?db1"
  let ?db' = "replace_ai_timeline_for_day db d cs s now"
  obtain rows where
    app: "ai_timeline_cards ?db2 = ai_timeline_cards ?db1 @ rows"
    and days: "\<forall>r \<in> set rows. row_day r = d"
    using fold_insert_card_rows [of d cs ?db1] by blast
  have cards: "ai_timeline_cards ?db' = filter (\<lambda>r. row_day r \<noteq> d) (ai_timeline_cards db) @ rows"
    using app by (simp add: replace_ai_timeline_for_day_def Let_def)
  have none: "filter (\<lambda>r. row_day r = d') rows = []"
    using days assms by (auto simp: filter_empty_conv)
  have kept: "filter (\<lambda>r. row_day r = d') (filter (\<lambda>r. row_day r \<noteq> d) (ai_timeline_cards db)) =
              filter (\<lambda>r. row_day r = d') (ai_timeline_cards db)"
    using assms by (auto intro: filter_cong)
  have rows_eq: "filter (\<lambda>r. row_day r = d') (ai_timeline_cards ?db') =
                 filter (\<lambda>r. row_day r = d') (ai_timeline_cards db)"
    using cards none kept by simp
  have sums: "ai_daily_summaries ?db' d' = ai_daily_summaries db d'"
    using assms fold_insert_card_other_tables [of d cs ?db1]
    by (simp add: replace_ai_timeline_for_day_def Let_def)
  have lst: "list_ai_timeline_for_day ?db' d' = list_ai_timeline_for_day db d'"
    using rows_eq by (simp add: list_ai_timeline_for_day_def)
  have smry: "get_ai_daily_summary ?db' d' = get_ai_daily_summary db d'"
    using sums by (simp add: get_ai_daily_summary_def)
  from rows_eq lst sums smry show ?thesis by blast
qed

definition example_card_morning :: pydict where
  "example_card_morning =
     [''start'' \<mapsto> ''09:00'', ''end'' \<mapsto> ''10:15'', ''title'' \<mapsto> ''Coding feature'',
      ''summary'' \<mapsto> ''Implemented timeline generation logic.'', ''category'' \<mapsto> ''Coding'']"

definition example_card_standup :: pydict where
  "example_card_standup =
     [''start'' \<mapsto> ''10:30'', ''end'' \<mapsto> ''11:00'', ''title'' \<mapsto> ''Standup'',
      ''summary'' \<mapsto> ''Shared progress and blockers.'', ''category'' \<mapsto> ''Meeting'']"

definition example_card_padded :: pydict where
  "example_card_padded =
     [''start'' \<mapsto> ''09:00'', ''end'' \<mapsto> ''09:30'', ''title'' \<mapsto> '' Work'',
      ''category'' \<mapsto> ''Coding'']"

definition example_database :: database where
  "example_database =
     \<lparr>screenshots = [], screenshots_seq = 0,
      ai_timeline_cards =
        [\<lparr>row_id = 1, row_day = ''2026-01-01'', row_start_time = ''08:00'',
          row_end_time = ''08:30'', row_title = ''Mail'', row_summary = ''Inbox'',
          row_category = ''Communication''\<rparr>,
         \<lparr>row_id = 2, row_day = ''2026-01-02'', row_start_time = ''07:00'',
          row_end_time = ''07:45'', row_title = ''Old card'', row_summary = ''Earlier run'',
          row_category = ''Other''\<rparr>],
      ai_timeline_cards_seq = 2,
      ai_daily_summaries =
        [''2026-01-01'' \<mapsto> \<lparr>sum_summary = ''Quiet day.'', sum_updated_at = ''t0''\<rparr>]\<rparr>"

theorem replace_ai_timeline_other_days_unchanged_witness:
  "list_ai_timeline_for_day
     (replace_ai_timeline_for_day example_database ''2026-01-02''
        [example_card_standup, example_card_morning] ''Solid morning.'' ''t1'') ''2026-01-01'' =
     [\<lparr>card_id = 1, card_day = ''2026-01-01'', card_start = ''08:00'', card_end = ''08:30'',
       card_title = ''Mail'', card_summary = ''Inbox'', card_category = ''Communication''\<rparr>] \<and>
   get_ai_daily_summary
     (replace_ai_timeline_for_day example_database ''2026-01-02''
        [example_card_standup, example_card_morning] ''Solid morning.'' ''t1'') ''2026-01-01'' =
     ''Quiet day.''"
proof -
  have h: "''2026-01-01'' \<noteq> ''2026-01-02''" by simp
  have before:
    "list_ai_timeline_for_day example_database ''2026-01-01'' =
       [\<lparr>card_id = 1, card_day = ''2026-01-01'', card_start = ''08:00'', card_end = ''08:30'',
         card_title = ''Mail'', card_summary = ''Inbox'', card_category = ''Communication''\<rparr>]"
    "get_ai_daily_summary example_database ''2026-01-01'' = ''Quiet day.''"
    by (simp_all add: list_ai_timeline_for_day_def get_ai_daily_summary_def example_database_def
        row_to_card_def)
  from replace_ai_timeline_other_days_unchanged [OF h, of example_database
      "[example_card_standup, example_card_morning]" "''Solid morning.''" "''t1''"] before
  show ?thesis by simp
qed

section \<open>Reading a day back after replacing it\<close>

lemma insort_key_cong_le:
  "(\<forall>y \<in> set ys. (f x \<le> f y) = (g x \<le> g y)) \<Longrightarrow> insort_key f x ys = insort_key g x ys"
  by (induction ys) simp_all

text \<open>
  \<open>ORDER BY start_time ASC, id ASC\<close> over rows whose ids increase in insertion order is
  the stable sort by \<open>start_time\<close> alone.
\<close>

lemma sort_key_id_tiebreak:
  fixes s :: "'a \<Rightarrow> 'b::linorder" and i :: "'a \<Rightarrow> int"
  assumes "sorted_wrt (<) (map i xs)"
  shows "sort_key (\<lambda>r. (s r, i r)) xs = sort_key s xs"
  using assms
proof (induction xs)
  case Nil
  show ?case by simp
next
  case (Cons x xs)
  have less: "\<forall>y \<in> set xs. i x < i y" using Cons.prems by auto
  have IH: "sort_key (\<lambda>r. (s r, i r)) xs = sort_key s xs"
    using Cons by simp
  have "\<forall>y \<in> set (sort_key s xs). ((s x, i x) \<le> (s y, i y)) = (s x \<le> s y)"
    using less by (auto simp: less_eq_prod_def)
  then have "insort_key (\<lambda>r. (s r, i r)) x (sort_key s xs) = insort_key s x (sort_key s xs)"
    by (rule insort_key_cong_le)
  then show ?case using IH by simp
qed

lemma map_insort_key:
  "map f (insort_key (\<lambda>x. g (f x)) x ys) = insort_key g (f x) (map f ys)"
  by (induction ys) simp_all

lemma map_sort_key:
  "map f (sort_key (\<lambda>x. g (f x)) xs) = sort_key g (map f xs)"
  by (induction xs) (simp_all add: map_insort_key)

lemma replace_rows_for_day:
  "\<exists>rows. filter (\<lambda>r. row_day r = d)
             (ai_timeline_cards (replace_ai_timeline_for_day db d cs s now)) = rows \<and>
     map (card_fields \<circ> row_to_card) rows = map stored_fields cs \<and>
     sorted_wrt (<) (map row_id rows)"
proof -
  let ?db1 = "db\<lparr>ai_timeline_cards := filter (\<lambda>r. row_day r \<noteq> d) (ai_timeline_cards db)\<rparr>"
  obtain rows where
    app: "ai_timeline_cards (fold (insert_card d) cs ?db1) = ai_timeline_cards ?db1 @ rows"
    and days: "\<forall>r \<in> set rows. row_day r = d"
    and flds: "map (card_fields \<circ> row_to_card) rows = map stored_fields cs"
    and incr: "sorted_wrt (<) (map row_id rows)"
    using fold_insert_card_rows [of d cs ?db1] by blast
  have "filter (\<lambda>r. row_day r = d)
          (ai_timeline_cards (replace_ai_timeline_for_day db d cs s now)) = rows"
    using app days by (simp add: replace_ai_timeline_for_day_def Let_def filter_id_conv)
  with flds incr show ?thesis by blast
qed

lemma list_after_replace:
  "map card_fields (list_ai_timeline_for_day (replace_ai_timeline_for_day db d cs s now) d) =
     sort_key fields_start (map stored_fields cs)"
proof -
  obtain rows where
    rows: "filter (\<lambda>r. row_day r = d)
             (ai_timeline_cards (replace_ai_timeline_for_day db d cs s now)) = rows"
    and flds: "map (card_fields \<circ> row_to_card) rows = map stored_fields cs"
    and incr: "sorted_wrt (<) (map row_id rows)"
    using replace_rows_for_day [of d db cs s now] by blast
  have key: "row_start_time = (\<lambda>r. fields_start ((card_fields \<circ> row_to_card) r))"
    by (simp add: fun_eq_iff fields_start_def card_fields_def row_to_card_def)
  have "map card_fields (list_ai_timeline_for_day (replace_ai_timeline_for_day db d cs s now) d) =
        map (card_fields \<circ> row_to_card) (sort_key (\<lambda>r. (row_start_time r, row_id r)) rows)"
    using rows by (simp add: list_ai_timeline_for_day_def)
  also have "\<dots> = map (card_fields \<circ> row_to_card) (sort_key row_start_time rows)"
    using sort_key_id_tiebreak [OF incr, where s = row_start_time] by simp
  also have "\<dots> = sort_key fields_start (map (card_fields \<circ> row_to_card) rows)"
    by (subst key) (rule map_sort_key)
  finally show ?thesis using flds by simp
qed

text \<open>
  C1, as the claim states it, fails where a field of a new card carries surrounding
  whitespace: the store writes the field stripped, so the card read back differs from the
  card passed in. Here the title \<open>'' Work''\<close> comes back as \<open>''Work''\<close>.
\<close>

theorem replace_then_list_counterexample:
  "mset (map card_fields (list_ai_timeline_for_day
      (replace_ai_timeline_for_day empty_database ''2026-01-02'' [example_card_padded] ''ok'' ''t1'')
      ''2026-01-02'')) \<noteq>
   mset (map given_fields [example_card_padded])"
  by (simp add: replace_ai_timeline_for_day_def list_ai_timeline_for_day_def
      empty_database_def insert_card_def next_rowid_def example_card_padded_def card_fields_def
      given_fields_def row_to_card_def dict_get_def py_strip_def py_isspace_def Let_def)

text \<open>
  C1, amended. After \<open>replace_ai_timeline_for_day(d, cs, s)\<close> the cards listed for \<open>d\<close>,
  read by title, start, end and category, are exactly the cards of \<open>cs\<close> with each field
  stripped of surrounding whitespace (a missing field read as the empty string), in the
  order of their stripped start texts and, among equal starts, in the order of \<open>cs\<close>. No
  card stored for \<open>d\<close> before the call is among them. When every field of \<open>cs\<close> is already
  stripped, they are the cards of \<open>cs\<close> themselves, each as often as \<open>cs\<close> holds it.
\<close>

theorem replace_then_list_returns_new_cards:
  "map card_fields (list_ai_timeline_for_day (replace_ai_timeline_for_day db d cs s now) d) =
     sort_key fields_start (map stored_fields cs) \<and>
   ((\<forall>c \<in> set cs. stored_fields c = given_fields c) \<longrightarrow>
      mset (map card_fields
        (list_ai_timeline_for_day (replace_ai_timeline_for_day db d cs s now) d)) =
      mset (map given_fields cs))"
proof -
  have eq: "map card_fields
      (list_ai_timeline_for_day (replace_ai_timeline_for_day db d cs s now) d) =
      sort_key fields_start (map stored_fields cs)"
    by (rule list_after_replace)
  have "mset (map card_fields
      (list_ai_timeline_for_day (replace_ai_timeline_for_day db d cs s now) d)) =
      mset (map given_fields cs)"
    if "\<forall>c \<in> set cs. stored_fields c = given_fields c"
  proof -
    from that have "map stored_fields cs = map given_fields cs" by simp
    with eq show ?thesis by simp
  qed
  with eq show ?thesis by blast
qed

theorem replace_then_list_returns_new_cards_witness:
  "map card_fields (list_ai_timeline_for_day
      (replace_ai_timeline_for_day example_database ''2026-01-02''
         [example_card_standup, example_card_morning] ''Solid morning.'' ''t1'') ''2026-01-02'') =
     [(''Coding feature'', ''09:00'', ''10:15'', ''Coding''),
      (''Standup'', ''10:30'', ''11:00'', ''Meeting'')] \<and>
   mset (map card_fields (list_ai_timeline_for_day
      (replace_ai_timeline_for_day example_database ''2026-01-02''
         [example_card_standup, example_card_morning] ''Solid morning.'' ''t1'') ''2026-01-02'')) =
     mset (map given_fields [example_card_standup, example_card_morning])"
proof -
  have stripped: "\<forall>c \<in> set [example_card_standup, example_card_morning].
      stored_fields c = given_fields c"
    by (simp add: stored_fields_def given_fields_def example_card_standup_def
        example_card_morning_def dict_get_def py_strip_def py_isspace_def)
  have sorted: "sort_key fields_start (map stored_fields [example_card_standup, example_card_morning]) =
      [(''Coding feature'', ''09:00'', ''10:15'', ''Coding''),
       (''Standup'', ''10:30'', ''11:00'', ''Meeting'')]"
    by (simp add: stored_fields_def fields_start_def example_card_standup_def
        example_card_morning_def dict_get_def py_strip_def py_isspace_def)
  note t = replace_then_list_returns_new_cards [of example_database "''2026-01-02''"
      "[example_card_standup, example_card_morning]" "''Solid morning.''" "''t1''"]
  from t have a: "map card_fields (list_ai_timeline_for_day
      (replace_ai_timeline_for_day example_database ''2026-01-02''
         [example_card_standup, example_card_morning] ''Solid morning.'' ''t1'') ''2026-01-02'') =
      sort_key fields_start (map stored_fields [example_card_standup, example_card_morning])"
    by (rule conjunct1)
  from t stripped have b: "mset (map card_fields (list_ai_timeline_for_day
      (replace_ai_timeline_for_day example_database ''2026-01-02''
         [example_card_standup, example_card_morning] ''Solid morning.'' ''t1'') ''2026-01-02'')) =
      mset (map given_fields [example_card_standup, example_card_morning])"
    by blast
  from a sorted have "map card_fields (list_ai_timeline_for_day
      (replace_ai_timeline_for_day example_database ''2026-01-02''
         [example_card_standup, example_card_morning] ''Solid morning.'' ''t1'') ''2026-01-02'') =
      [(''Coding feature'', ''09:00'', ''10:15'', ''Coding''),
       (''Standup'', ''10:30'', ''11:00'', ''Meeting'')]"
    by (rule trans)
  then show ?thesis using b by (rule conjI)
qed

section \<open>The storage budget (enforce_storage_limit)\<close>

text \<open>
  \<open>ORDER BY captured_at ASC\<close> is the stable sort of the rows by their \<open>captured_at\<close> text:
  rows with equal texts come in row id order. Removing the media file of a row
  (\<open>unlink\<close>, whose \<open>OSError\<close> is swallowed) changes neither the rows nor the counters and is
  left out of the state. The loop state is the database, \<open>current\<close>, \<open>removed_count\<close> and
  \<open>removed_bytes\<close>.
\<close>

text \<open>
  \<open>insert_screenshot\<close>: \<open>at_text\<close> is \<open>captured_at.isoformat()\<close>. It returns the new row
  id and the database after the call.
\<close>

definition insert_screenshot ::
  "database \<Rightarrow> string \<Rightarrow> string \<Rightarrow> int \<Rightarrow> string \<Rightarrow> string \<Rightarrow> int \<times> database" where
  "insert_screenshot db at_text path bytes title proc =
     (let i = next_rowid (map shot_id (screenshots db)) (screenshots_seq db)
      in (i, db\<lparr>screenshots := screenshots db @
                 [\<lparr>shot_id = i, shot_captured_at = at_text, shot_file_path = path,
                   shot_file_size = bytes, shot_window_title = title,
                   shot_process_name = proc\<rparr>],
               screenshots_seq := i\<rparr>))"


definition delete_screenshot :: "int \<Rightarrow> database \<Rightarrow> database" where
  "delete_screenshot i db = db\<lparr>screenshots := filter (\<lambda>r. shot_id r \<noteq> i) (screenshots db)\<rparr>"

fun enforce_loop ::
  "int \<Rightarrow> screenshot_row list \<Rightarrow> database \<times> int \<times> int \<times> int \<Rightarrow> database \<times> int \<times> int \<times> int" where
  "enforce_loop max_bytes [] st = st"
| "enforce_loop max_bytes (row # rows) (db, current, removed_count, removed_bytes) =
     (if current \<le> max_bytes then (db, current, removed_count, removed_bytes)
      else enforce_loop max_bytes rows
             (delete_screenshot (shot_id row) db, current - shot_file_size row,
              removed_count + 1, removed_bytes + shot_file_size row))"

definition enforce_storage_limit :: "database \<Rightarrow> int \<Rightarrow> (int \<times> int) \<times> database" where
  "enforce_storage_limit db max_bytes =
     (if max_bytes \<le> 0 then ((0, 0), db)
      else
        let current = sum_list (map shot_file_size (screenshots db)) in
        if current \<le> max_bytes then ((0, 0), db)
        else
          (case enforce_loop max_bytes (sort_key shot_captured_at (screenshots db))
                  (db, current, 0, 0) of
             (db', current', removed_count, removed_bytes) \<Rightarrow>
               ((removed_count, removed_bytes), db')))"

text \<open>
  The row ids of \<open>screenshots\<close> are distinct in the empty database and stay distinct
  under \<open>insert_screenshot\<close> and under \<open>enforce_storage_limit\<close>.
\<close>

lemma insert_screenshot_distinct_ids:
  assumes "distinct (map shot_id (screenshots db))"
  shows "distinct (map shot_id (screenshots (snd (insert_screenshot db at_text path bytes title proc))))"
proof -
  have "next_rowid (map shot_id (screenshots db)) (screenshots_seq db) \<notin>
      set (map shot_id (screenshots db))"
    using next_rowid_fresh [of _ "map shot_id (screenshots db)" "screenshots_seq db"] by fastforce
  with assms show ?thesis by (simp add: insert_screenshot_def Let_def)
qed

lemma enforce_loop_distinct_ids:
  "distinct (map shot_id (screenshots (fst st))) \<Longrightarrow>
   distinct (map shot_id (screenshots (fst (enforce_loop max_bytes rows st))))"
proof (induction rows arbitrary: st)
  case Nil
  then show ?case by simp
next
  case (Cons row rows)
  obtain db current n b where st: "st = (db, current, n, b)" by (cases st) auto
  have "distinct (map shot_id (screenshots (delete_screenshot (shot_id row) db)))"
    using Cons.prems by (simp add: st delete_screenshot_def distinct_map_filter)
  with Cons.IH [of "(delete_screenshot (shot_id row) db, current - shot_file_size row,
      n + 1, b + shot_file_size row)"] Cons.prems
  show ?case by (simp add: st)
qed

lemma enforce_storage_limit_distinct_ids:
  assumes "distinct (map shot_id (screenshots db))"
  shows "distinct (map shot_id (screenshots (snd (enforce_storage_limit db max_bytes))))"
proof -
  have "distinct (map shot_id (screenshots (fst (enforce_loop max_bytes
      (sort_key shot_captured_at (screenshots db))
      (db, sum_list (map shot_file_size (screenshots db)), 0, 0)))))"
    using assms by (intro enforce_loop_distinct_ids) simp
  with assms show ?thesis
    by (auto simp: enforce_storage_limit_def Let_def split: prod.splits)
qed







definition example_shots :: database where
  "example_shots =
     empty_database\<lparr>screenshots :=
        [\<lparr>shot_id = 1, shot_captured_at = ''2026-01-05T09:00:00+00:00'',
          shot_file_path = ''a.jpg'', shot_file_size = 1200, shot_window_title = ''A'',
          shot_process_name = ''Code''\<rparr>,
         \<lparr>shot_id = 2, shot_captured_at = ''2026-01-05T09:01:00+00:00'',
          shot_file_path = ''b.jpg'', shot_file_size = 1200, shot_window_title = ''B'',
          shot_process_name = ''Code''\<rparr>],
       screenshots_seq := 2\<rparr>"

lemma enforce_storage_limit_example:
  "enforce_storage_limit example_shots 1500 =
     ((1, 1200),
      example_shots\<lparr>screenshots :=
        [\<lparr>shot_id = 2, shot_captured_at = ''2026-01-05T09:01:00+00:00'',
          shot_file_path = ''b.jpg'', shot_file_size = 1200, shot_window_title = ''B'',
          shot_process_name = ''Code''\<rparr>]\<rparr>)"
  by (simp add: enforce_storage_limit_def example_shots_def empty_database_def
      delete_screenshot_def)


section \<open>Downsampling the screenshots sent to the provider (ai.py)\<close>

text \<open>
  A \<open>ScreenshotRecord\<close> holds \<open>captured_at\<close> as the microseconds of the instant since the
  epoch: a \<open>datetime\<close> has microsecond resolution, and every timestamp of one run carries
  a time zone, so the instants are what is compared and subtracted.
\<close>

record ScreenshotRecord =
  rec_id :: int
  captured_at :: int
  file_path :: string
  file_size :: int
  window_title :: string
  process_name :: string

text \<open>
  \<open>xs[::step]\<close> for \<open>step \<ge> 1\<close> (the elements at indices \<open>0, step, 2 * step, ...\<close>) and
  \<open>xs[:m]\<close> (a negative \<open>m\<close> counts from the end).
\<close>

definition py_slice_step :: "'a list \<Rightarrow> nat \<Rightarrow> 'a list" where
  "py_slice_step xs step = map (\<lambda>i. xs ! (i * step)) [0 ..< (length xs + step - 1) div step]"

definition py_slice_to :: "'a list \<Rightarrow> int \<Rightarrow> 'a list" where
  "py_slice_to xs m = (if 0 \<le> m then take (nat m) xs else take (nat (int (length xs) + m)) xs)"

text \<open>
  \<open>_sample_screenshots(rows, max_items)\<close>. The floor division raises
  \<open>ZeroDivisionError\<close> when \<open>max_items\<close> is zero and the list is not empty.
\<close>

definition sample_screenshots ::
  "ScreenshotRecord list \<Rightarrow> int \<Rightarrow> py_error + ScreenshotRecord list" where
  "sample_screenshots rows max_items =
     (if int (length rows) \<le> max_items then Inr rows
      else if max_items = 0 then Inl ZeroDivisionError
      else
        let step = max 1 (int (length rows) div max_items);
            sampled = py_slice_step rows (nat step);
            sampled = (if int (length sampled) > max_items
                       then py_slice_to sampled max_items else sampled);
            sampled = (if sampled \<noteq> [] \<and> rec_id (last sampled) \<noteq> rec_id (last rows)
                       then sampled[length sampled - 1 := last rows] else sampled)
        in Inr sampled)"

lemma subseq_map_nth_drop:
  "sorted_wrt (<) js \<Longrightarrow> \<forall>j \<in> set js. k \<le> j \<and> j < length xs \<Longrightarrow>
   subseq (map (nth xs) js) (drop k xs)"
proof (induction js arbitrary: k)
  case Nil
  show ?case by simp
next
  case (Cons j js)
  have j: "k \<le> j" "j < length xs" using Cons.prems by auto
  have "\<forall>i \<in> set js. Suc j \<le> i \<and> i < length xs" using Cons.prems by auto
  with Cons have IH: "subseq (map (nth xs) js) (drop (Suc j) xs)" by simp
  have "drop k xs = take (j - k) (drop k xs) @ drop (j - k) (drop k xs)"
    by (rule append_take_drop_id [symmetric])
  also have "drop (j - k) (drop k xs) = drop j xs" using j by simp
  also have "drop j xs = xs ! j # drop (Suc j) xs" using j by (simp add: Cons_nth_drop_Suc)
  finally have split: "drop k xs = take (j - k) (drop k xs) @ xs ! j # drop (Suc j) xs" .
  have "subseq (xs ! j # map (nth xs) js) (xs ! j # drop (Suc j) xs)"
    using IH by simp
  then have "subseq (xs ! j # map (nth xs) js) (take (j - k) (drop k xs) @ xs ! j # drop (Suc j) xs)"
    by (rule list_emb_append2)
  with split show ?case by simp
qed

lemma subseq_map_nth:
  "sorted_wrt (<) js \<Longrightarrow> \<forall>j \<in> set js. j < length xs \<Longrightarrow> subseq (map (nth xs) js) xs"
  using subseq_map_nth_drop [of js 0 xs] by simp

lemma sample_screenshots_long:
  fixes m :: nat
  assumes m: "0 < m" and long: "m < length rows"
  shows "sample_screenshots rows (int m) =
           Inr (map (\<lambda>i. rows ! (i * (length rows div m))) [0 ..< m - 1] @
                [if rec_id (rows ! ((m - 1) * (length rows div m))) = rec_id (last rows)
                 then rows ! ((m - 1) * (length rows div m)) else last rows])"
proof -
  let ?n = "length rows"
  let ?q = "?n div m"
  let ?f = "\<lambda>i. rows ! (i * ?q)"
  have q: "0 < ?q" using m long by (simp add: div_greater_zero_iff)
  have step: "nat (max 1 (int ?n div int m)) = ?q"
    using q by (simp add: zdiv_int [symmetric] max_def)
  have mq: "m * ?q \<le> ?n" by (metis div_times_less_eq_dividend mult.commute)
  have "m * ?q \<le> ?n + ?q - 1" using mq q by linarith
  then have cnt: "m \<le> (?n + ?q - 1) div ?q"
    using q by (simp add: less_eq_div_iff_mult_less_eq)
  have s1: "py_slice_step rows ?q = map ?f [0 ..< (?n + ?q - 1) div ?q]"
    by (simp add: py_slice_step_def)
  have tk: "take m [0 ..< (?n + ?q - 1) div ?q] = [0 ..< m]"
    using cnt by (simp add: take_upt)
  have s2: "(if int (length (py_slice_step rows ?q)) > int m
             then py_slice_to (py_slice_step rows ?q) (int m) else py_slice_step rows ?q) =
            map ?f [0 ..< m]"
  proof (cases "m < (?n + ?q - 1) div ?q")
    case True
    then show ?thesis using tk by (simp add: s1 py_slice_to_def take_map)
  next
    case False
    with cnt have "(?n + ?q - 1) div ?q = m" by simp
    then show ?thesis by (simp add: s1)
  qed
  obtain m' where m': "m = Suc m'" using m by (cases m) auto
  have upt: "map ?f [0 ..< m] = map ?f [0 ..< m - 1] @ [?f (m - 1)]"
    by (simp add: m')
  have s3: "(if map ?f [0 ..< m] \<noteq> [] \<and> rec_id (last (map ?f [0 ..< m])) \<noteq> rec_id (last rows)
             then (map ?f [0 ..< m])[length (map ?f [0 ..< m]) - 1 := last rows]
             else map ?f [0 ..< m]) =
            map ?f [0 ..< m - 1] @
              [if rec_id (?f (m - 1)) = rec_id (last rows) then ?f (m - 1) else last rows]"
  proof (cases "rec_id (?f (m - 1)) = rec_id (last rows)")
    case True
    then show ?thesis using upt by simp
  next
    case False
    have "(map ?f [0 ..< m - 1] @ [?f (m - 1)])[length (map ?f [0 ..< m - 1]) := last rows] =
            map ?f [0 ..< m - 1] @ [last rows]"
      by (rule list_update_length)
    then show ?thesis using False upt by (simp add: m')
  qed
  have "sample_screenshots rows (int m) =
      Inr (if map ?f [0 ..< m] \<noteq> [] \<and> rec_id (last (map ?f [0 ..< m])) \<noteq> rec_id (last rows)
             then (map ?f [0 ..< m])[length (map ?f [0 ..< m]) - 1 := last rows]
             else map ?f [0 ..< m])"
    using long m unfolding sample_screenshots_def Let_def step s2 by simp
  with s3 show ?thesis by simp
qed

lemma sorted_wrt_stride:
  fixes q :: nat
  assumes "0 < q"
  shows "sorted_wrt (<) (map (\<lambda>i. i * q) [0 ..< k])"
  using assms by (simp add: sorted_wrt_map sorted_wrt_iff_nth_less)

text \<open>
  C8. With \<open>max_items = 20\<close>: a list of at most 20 records is returned unchanged. A longer
  list gives a list of 20 records that is a subsequence of the input and begins with the
  first record; its elements before the last are the records at indices
  \<open>0, step, 2 * step, ...\<close> for the stride \<open>step = len(rows) // 20\<close>, and its last element
  has the id of the last record: it is the last record when the ids are distinct, as the
  row ids of the store are. The result is a function of \<open>rows\<close> alone.
\<close>

theorem sample_screenshots_cap_20:
  "(length rows \<le> 20 \<longrightarrow> sample_screenshots rows 20 = Inr rows) \<and>
   (20 < length rows \<longrightarrow>
      (\<exists>ys. sample_screenshots rows 20 = Inr ys \<and> length ys = 20 \<and> subseq ys rows \<and>
            hd ys = hd rows \<and> rec_id (last ys) = rec_id (last rows) \<and>
            (distinct (map rec_id rows) \<longrightarrow> last ys = last rows) \<and>
            (\<forall>i < 19. ys ! i = rows ! (i * (length rows div 20)))))"
proof (intro conjI impI)
  assume "length rows \<le> 20"
  then show "sample_screenshots rows 20 = Inr rows"
    by (simp add: sample_screenshots_def)
next
  let ?n = "length rows"
  let ?q = "?n div 20"
  let ?k = "if rec_id (rows ! (19 * ?q)) = rec_id (last rows) then 19 * ?q else ?n - 1"
  let ?ys = "map (\<lambda>i. rows ! (i * ?q)) [0 ..< 19] @ [rows ! ?k]"
  assume long: "20 < length rows"
  have ne: "rows \<noteq> []" using long by auto
  have lst: "last rows = rows ! (?n - 1)" using ne by (rule last_conv_nth)
  have run: "sample_screenshots rows 20 = Inr ?ys"
    using sample_screenshots_long [of 20 rows] long by (simp add: lst)
  have q: "0 < ?q" using long by (simp add: div_greater_zero_iff)
  have mq: "20 * ?q \<le> ?n" by (metis div_times_less_eq_dividend mult.commute)
  have k: "19 * ?q \<le> ?k" "?k < ?n" using mq q ne by auto
  have len: "length ?ys = 20" by simp
  have ys_nth: "?ys = map (nth rows) (map (\<lambda>i. i * ?q) [0 ..< 19] @ [?k])"
    by (simp add: comp_def)
  have below: "\<forall>j \<in> set (map (\<lambda>i. i * ?q) [0 ..< 19]). j < ?k"
  proof
    fix j assume "j \<in> set (map (\<lambda>i. i * ?q) [0 ..< 19])"
    then obtain i where i: "i < 19" "j = i * ?q" by auto
    have "Suc i \<le> 19" using i by simp
    then have "Suc i * ?q \<le> 19 * ?q" by (rule mult_le_mono1)
    then have "j + ?q \<le> 19 * ?q" using i by simp
    with k(1) q show "j < ?k" by linarith
  qed
  have incr: "sorted_wrt (<) (map (\<lambda>i. i * ?q) [0 ..< 19] @ [?k])"
    using sorted_wrt_stride [OF q, of 19] below by (simp add: sorted_wrt_append)
  have inside: "\<forall>j \<in> set (map (\<lambda>i. i * ?q) [0 ..< 19] @ [?k]). j < ?n"
    using below k(2) by auto
  have sub: "subseq ?ys rows"
    unfolding ys_nth using incr inside by (rule subseq_map_nth)
  have "[0 ..< 19] = 0 # [1 ..< 19]" by (simp add: upt_rec)
  then have hd: "hd ?ys = hd rows" using ne by (simp add: hd_conv_nth)
  have id: "rec_id (last ?ys) = rec_id (last rows)" by (simp add: lst)
  have same: "last ?ys = last rows" if ids: "distinct (map rec_id rows)"
  proof (cases "rec_id (rows ! (19 * ?q)) = rec_id (last rows)")
    case True
    have a: "19 * ?q < length (map rec_id rows)" using mq q by simp
    have b: "?n - 1 < length (map rec_id rows)" using ne by simp
    have "map rec_id rows ! (19 * ?q) = map rec_id rows ! (?n - 1)"
      using True a b by (simp add: lst)
    then have "19 * ?q = ?n - 1"
      using nth_eq_iff_index_eq [OF ids a b] by blast
    then show ?thesis by (simp add: lst)
  next
    case False
    then show ?thesis by (simp add: lst)
  qed
  have nth: "\<forall>i < 19. ?ys ! i = rows ! (i * ?q)"
    by (simp add: nth_append)
  from run len sub hd id same nth
  show "\<exists>ys. sample_screenshots rows 20 = Inr ys \<and> length ys = 20 \<and> subseq ys rows \<and>
            hd ys = hd rows \<and> rec_id (last ys) = rec_id (last rows) \<and>
            (distinct (map rec_id rows) \<longrightarrow> last ys = last rows) \<and>
            (\<forall>i < 19. ys ! i = rows ! (i * (length rows div 20)))"
    by blast
qed

definition example_record :: "nat \<Rightarrow> ScreenshotRecord" where
  "example_record i =
     \<lparr>rec_id = int i, captured_at = int i * 10000000, file_path = ''shot.jpg'',
      file_size = 12345, window_title = ''Editing app.py'', process_name = ''Code''\<rparr>"

lemma sample_screenshots_example:
  "map_sum id (map rec_id) (sample_screenshots (map example_record [0 ..< 45]) 20) =
     Inr [0, 2, 4, 6, 8, 10, 12, 14, 16, 18, 20, 22, 24, 26, 28, 30, 32, 34, 36, 44]"
  by code_simp

theorem sample_screenshots_cap_20_witness:
  "sample_screenshots (map example_record [0 ..< 3]) 20 = Inr (map example_record [0 ..< 3]) \<and>
   (\<exists>ys. sample_screenshots (map example_record [0 ..< 45]) 20 = Inr ys \<and> length ys = 20 \<and>
      subseq ys (map example_record [0 ..< 45]) \<and>
      hd ys = example_record 0 \<and> last ys = example_record 44)"
proof -
  have short: "length (map example_record [0 ..< 3]) \<le> 20" by simp
  have long: "20 < length (map example_record [0 ..< 45])" by simp
  have "inj_on (\<lambda>i. rec_id (example_record i)) (set [0 ..< 45])"
    by (rule inj_onI) (simp add: example_record_def)
  then have ids: "distinct (map rec_id (map example_record [0 ..< 45]))"
    by (simp add: distinct_map comp_def)
  have ends: "hd (map example_record [0 ..< 45]) = example_record 0"
    "last (map example_record [0 ..< 45]) = example_record 44"
    by (simp_all add: upt_rec [of 0 45] last_map)
  from sample_screenshots_cap_20 [of "map example_record [0 ..< 3]"] short
  have a: "sample_screenshots (map example_record [0 ..< 3]) 20 =
      Inr (map example_record [0 ..< 3])" by blast
  from sample_screenshots_cap_20 [of "map example_record [0 ..< 45]"] long ids
  obtain ys where "sample_screenshots (map example_record [0 ..< 45]) 20 = Inr ys"
    "length ys = 20" "subseq ys (map example_record [0 ..< 45])"
    "hd ys = hd (map example_record [0 ..< 45])" "last ys = last (map example_record [0 ..< 45])"
    by blast
  with a ends show ?thesis by auto
qed

section \<open>The capture service (capture.py)\<close>

text \<open>
  Of the service's fields the interval and whether the capture thread is alive are kept;
  a finite \<open>float\<close> is a rational number. \<open>start\<close> returns its result and the service
  after the call. \<open>_current_interval\<close> of the application reads the interval the user
  typed (\<open>None\<close> when it is not a number, and the stored setting is used instead) and is
  what \<open>_start_capture\<close> passes to \<open>start\<close>.
\<close>

record ScreenCaptureService =
  svc_interval_seconds :: rat
  svc_is_running :: bool

definition new_service :: ScreenCaptureService where
  "new_service = \<lparr>svc_interval_seconds = 10, svc_is_running = False\<rparr>"

definition ScreenCaptureService_start :: "ScreenCaptureService \<Rightarrow> rat \<Rightarrow> bool \<times> ScreenCaptureService" where
  "ScreenCaptureService_start svc interval_seconds =
     (let interval_seconds = max 1 interval_seconds
      in if svc_is_running svc then (False, svc)
         else (True, svc\<lparr>svc_interval_seconds := interval_seconds, svc_is_running := True\<rparr>))"

definition current_interval :: "rat option \<Rightarrow> rat \<Rightarrow> rat" where
  "current_interval typed stored =
     (case typed of
        None \<Rightarrow> max 2 (min 300 stored)
      | Some v \<Rightarrow> max 2 (min 300 v))"

definition start_capture :: "ScreenCaptureService \<Rightarrow> rat option \<Rightarrow> rat \<Rightarrow> bool \<times> ScreenCaptureService" where
  "start_capture svc typed stored = ScreenCaptureService_start svc (current_interval typed stored)"

text \<open>
  C9, as the claim states it, fails above 300 seconds: \<open>start\<close> bounds the interval from
  below only, and an idle service started with 1000 runs with an interval of 1000
  seconds.
\<close>

theorem start_counterexample:
  "\<not> svc_interval_seconds (snd (ScreenCaptureService_start new_service 1000)) \<le> 300"
  by (simp add: ScreenCaptureService_start_def new_service_def)

text \<open>
  C9, amended. \<open>start\<close> on a service that is not running returns \<open>True\<close> and sets the
  interval to \<open>max(1, interval)\<close>, which is at least 1 second; no upper bound is applied
  by the service. On the application's path, \<open>_start_capture\<close>, the interval passed is
  already clamped to [2, 300], so the interval of the loop lies in that range. On a
  running service \<open>start\<close> returns \<open>False\<close> and changes nothing.
\<close>

theorem start_clamps_below:
  "(\<not> svc_is_running svc \<longrightarrow>
      fst (ScreenCaptureService_start svc x) \<and> svc_is_running (snd (ScreenCaptureService_start svc x)) \<and>
      svc_interval_seconds (snd (ScreenCaptureService_start svc x)) = max 1 x \<and>
      1 \<le> svc_interval_seconds (snd (ScreenCaptureService_start svc x)) \<and>
      2 \<le> svc_interval_seconds (snd (start_capture svc typed stored)) \<and>
      svc_interval_seconds (snd (start_capture svc typed stored)) \<le> 300) \<and>
   (svc_is_running svc \<longrightarrow> ScreenCaptureService_start svc x = (False, svc))"
  by (auto simp: ScreenCaptureService_start_def start_capture_def current_interval_def Let_def split: option.splits)

theorem start_clamps_below_witness:
  "\<not> svc_is_running new_service \<and>
   svc_interval_seconds (snd (ScreenCaptureService_start new_service (1 / 2))) = 1 \<and>
   svc_interval_seconds (snd (start_capture new_service (Some 1000) 10)) \<le> 300 \<and>
   ScreenCaptureService_start (snd (ScreenCaptureService_start new_service 5)) 7 = (False, snd (ScreenCaptureService_start new_service 5))"
proof -
  have idle: "\<not> svc_is_running new_service" by (simp add: new_service_def)
  from start_clamps_below [of new_service "1 / 2" "Some 1000" 10] idle
  have a: "svc_interval_seconds (snd (ScreenCaptureService_start new_service (1 / 2))) = max 1 (1 / 2)"
    and b: "svc_interval_seconds (snd (start_capture new_service (Some 1000) 10)) \<le> 300"
    and r: "svc_is_running (snd (ScreenCaptureService_start new_service (1 / 2)))"
    by blast+
  from start_clamps_below [of new_service 5 None 0] idle
  have "svc_is_running (snd (ScreenCaptureService_start new_service 5))" by blast
  with start_clamps_below [of "snd (ScreenCaptureService_start new_service 5)" 7 None 0]
  have c: "ScreenCaptureService_start (snd (ScreenCaptureService_start new_service 5)) 7 = (False, snd (ScreenCaptureService_start new_service 5))" by blast
  from idle a b c show ?thesis by simp
qed

section \<open>The segmenter (timeline.py)\<close>






































section \<open>Normalizing the provider's cards (ai.py)\<close>

text \<open>
  On the modelled characters \<open>str.isdigit\<close> holds for the decimal digits U+0030..U+0039
  and for the superscript digits U+00B2, U+00B3 and U+00B9, which are no decimal digits.
  \<open>int(s)\<close> in base 10 strips the whitespace it knows (U+0009..U+000D, U+0020, U+0085,
  U+00A0), reads one optional sign and then decimal digits, which single underscores may
  separate; anything else raises \<open>ValueError\<close>. \<open>f"{n:02d}"\<close> is modelled for
  \<open>0 \<le> n \<le> 99\<close>, the only values it is applied to.
\<close>

definition py_isdecimal_char :: "char \<Rightarrow> bool" where
  "py_isdecimal_char c = (let n = (of_char c :: nat) in 48 \<le> n \<and> n \<le> 57)"

definition py_isdigit_char :: "char \<Rightarrow> bool" where
  "py_isdigit_char c =
     (let n = (of_char c :: nat) in (48 \<le> n \<and> n \<le> 57) \<or> n = 178 \<or> n = 179 \<or> n = 185)"

definition py_isdigit :: "string \<Rightarrow> bool" where
  "py_isdigit s = (s \<noteq> [] \<and> list_all py_isdigit_char s)"

definition digit_value :: "char \<Rightarrow> int" where
  "digit_value c = int (of_char c) - 48"

definition int_isspace :: "char \<Rightarrow> bool" where
  "int_isspace c =
     (let n = (of_char c :: nat) in (9 \<le> n \<and> n \<le> 13) \<or> n = 32 \<or> n = 133 \<or> n = 160)"

fun parse_digits :: "string \<Rightarrow> int \<Rightarrow> bool \<Rightarrow> int option" where
  "parse_digits [] acc after_digit = (if after_digit then Some acc else None)"
| "parse_digits (c # cs) acc after_digit =
     (if py_isdecimal_char c then parse_digits cs (acc * 10 + digit_value c) True
      else if c = CHR ''_'' \<and> after_digit then parse_digits cs acc False
      else None)"

definition py_int_str :: "string \<Rightarrow> py_error + int" where
  "py_int_str s =
     (let t = rev (dropWhile int_isspace (rev (dropWhile int_isspace s)));
          negative = (t \<noteq> [] \<and> hd t = CHR ''-'');
          body = (if t \<noteq> [] \<and> (hd t = CHR ''-'' \<or> hd t = CHR ''+'') then tl t else t)
      in case parse_digits body 0 False of
           None \<Rightarrow> Inl ValueError
         | Some n \<Rightarrow> Inr (if negative then - n else n))"

definition digit_char :: "int \<Rightarrow> char" where
  "digit_char d = char_of (nat (48 + d))"

definition format_02d :: "int \<Rightarrow> string" where
  "format_02d n = [digit_char (n div 10), digit_char (n mod 10)]"

text \<open>\<open>_norm_hhmm(value)\<close>; \<open>Inl\<close> is the exception that \<open>int\<close> raises.\<close>

definition norm_hhmm :: "string \<Rightarrow> py_error + string" where
  "norm_hhmm v =
     (let value = py_strip v
      in if length value = 5 \<and> value ! 2 = CHR '':'' \<and>
            py_isdigit (filter (\<lambda>c. c \<noteq> CHR '':'') value)
         then
           (case py_int_str (take 2 value) of
              Inl e \<Rightarrow> Inl e
            | Inr hh \<Rightarrow>
                (case py_int_str (drop 3 value) of
                   Inl e \<Rightarrow> Inl e
                 | Inr mm \<Rightarrow>
                     if 0 \<le> hh \<and> hh \<le> 23 \<and> 0 \<le> mm \<and> mm \<le> 59
                     then Inr (format_02d hh @ '':'' @ format_02d mm)
                     else Inr ''''))
         else Inr '''')"

text \<open>
  The value under \<open>cards\<close> of the provider's answer: a list or something else, its entries
  dictionaries or something else. A dictionary is held as the map from its keys to the
  \<open>str()\<close> of its values, since \<open>_normalize_cards\<close> reads every value through \<open>str\<close>.
  The card it builds is a dictionary with five keys.
\<close>

datatype raw_entry = NotADict | Dict pydict

datatype raw_cards = NotAList | RawList "raw_entry list"

definition card_dict :: "string \<Rightarrow> string \<Rightarrow> string \<Rightarrow> string \<Rightarrow> string \<Rightarrow> pydict" where
  "card_dict start_v end_v title summary category =
     [''start'' \<mapsto> start_v, ''end'' \<mapsto> end_v, ''title'' \<mapsto> title,
      ''summary'' \<mapsto> summary, ''category'' \<mapsto> category]"

fun normalize_entries :: "raw_entry list \<Rightarrow> pydict list \<Rightarrow> py_error + pydict list" where
  "normalize_entries [] cards = Inr cards"
| "normalize_entries (NotADict # rest) cards = normalize_entries rest cards"
| "normalize_entries (Dict entry # rest) cards =
     (case norm_hhmm (py_strip (dict_get entry ''start'' '''')) of
        Inl e \<Rightarrow> Inl e
      | Inr start_v \<Rightarrow>
          (case norm_hhmm (py_strip (dict_get entry ''end'' '''')) of
             Inl e \<Rightarrow> Inl e
           | Inr end_v \<Rightarrow>
               let title = py_strip (dict_get entry ''title'' '''');
                   summary = py_strip (dict_get entry ''summary'' '''');
                   stripped = py_strip (dict_get entry ''category'' ''Other'');
                   category = (if stripped = [] then ''Other'' else stripped)
               in if start_v = [] \<or> end_v = [] \<or> title = []
                  then normalize_entries rest cards
                  else normalize_entries rest
                         (cards @ [card_dict start_v end_v title summary category])))"

definition normalize_cards :: "raw_cards \<Rightarrow> py_error + pydict list" where
  "normalize_cards raw = (case raw of NotAList \<Rightarrow> Inr [] | RawList entries \<Rightarrow> normalize_entries entries [])"

text \<open>
  A strict zero-padded 24-hour \<open>HH:MM\<close> string, and the texts on which \<open>int\<close> raises
  inside \<open>_norm_hhmm\<close>: they pass the shape test (five characters, a colon in the middle,
  only \<open>isdigit\<close> characters once the colons are removed), yet one of the four outer
  characters is not a decimal digit.
\<close>

definition is_hhmm :: "string \<Rightarrow> bool" where
  "is_hhmm s =
     (length s = 5 \<and> py_isdecimal_char (s ! 0) \<and> py_isdecimal_char (s ! 1) \<and>
      s ! 2 = CHR '':'' \<and> py_isdecimal_char (s ! 3) \<and> py_isdecimal_char (s ! 4) \<and>
      digit_value (s ! 0) * 10 + digit_value (s ! 1) \<le> 23 \<and>
      digit_value (s ! 3) * 10 + digit_value (s ! 4) \<le> 59)"

definition int_raises :: "string \<Rightarrow> bool" where
  "int_raises s =
     (length s = 5 \<and> s ! 2 = CHR '':'' \<and> py_isdigit (filter (\<lambda>c. c \<noteq> CHR '':'') s) \<and>
      \<not> (py_isdecimal_char (s ! 0) \<and> py_isdecimal_char (s ! 1) \<and>
         py_isdecimal_char (s ! 3) \<and> py_isdecimal_char (s ! 4)))"



lemma py_strip_prefix: "\<exists>w. rev (dropWhile P (rev xs)) @ w = xs"
proof -
  have "rev xs = takeWhile P (rev xs) @ dropWhile P (rev xs)" by simp
  then have "rev (rev xs) = rev (takeWhile P (rev xs) @ dropWhile P (rev xs))" by simp
  then have "xs = rev (dropWhile P (rev xs)) @ rev (takeWhile P (rev xs))"
    by (simp only: rev_rev_ident rev_append)
  then show ?thesis by metis
qed

lemma py_strip_idem: "py_strip (py_strip s) = py_strip s"
proof -
  let ?P = py_isspace
  let ?s = "dropWhile ?P s"
  let ?u = "rev (dropWhile ?P (rev ?s))"
  have u: "py_strip s = ?u" by (simp add: py_strip_def)
  have front: "dropWhile ?P ?u = ?u"
  proof (cases "?u = []")
    case True
    show ?thesis unfolding True by simp
  next
    case False
    obtain w where w: "?u @ w = ?s" using py_strip_prefix [of ?P ?s] by blast
    with False have "hd ?u = hd ?s" by (metis hd_append2)
    moreover have ne: "?s \<noteq> []" using w False by (cases ?s) simp_all
    from ne have "\<not> ?P (hd ?s)" by (rule hd_dropWhile)
    ultimately have "\<not> ?P (hd ?u)" by simp
    with False show ?thesis by (cases ?u) auto
  qed
  have "py_strip ?u = rev (dropWhile ?P (rev (dropWhile ?P ?u)))" by (simp add: py_strip_def)
  also have "\<dots> = rev (dropWhile ?P (rev ?u))" by (simp only: front)
  also have "\<dots> = ?u" by simp
  finally show ?thesis by (simp only: u)
qed

lemma decimal_plain:
  assumes "py_isdecimal_char c"
  shows "\<not> int_isspace c" "c \<noteq> CHR ''-''" "c \<noteq> CHR ''+''" "c \<noteq> CHR ''_''" "c \<noteq> CHR '':''"
    "0 \<le> digit_value c" "digit_value c \<le> 9" "digit_char (digit_value c) = c"
  using assms
  by (auto simp: py_isdecimal_char_def int_isspace_def digit_value_def digit_char_def Let_def)

lemma digitish_plain:
  assumes "py_isdigit_char c \<or> c = CHR '':''"
  shows "\<not> int_isspace c" "c \<noteq> CHR ''-''" "c \<noteq> CHR ''+''" "c \<noteq> CHR ''_''"
  using assms
  by (auto simp: py_isdigit_char_def int_isspace_def Let_def)

lemma py_int_str_two_decimal:
  assumes "py_isdecimal_char a" "py_isdecimal_char b"
  shows "py_int_str [a, b] = Inr (digit_value a * 10 + digit_value b)"
  using assms decimal_plain [of a] decimal_plain [of b]
  by (simp add: py_int_str_def Let_def)

lemma py_int_str_two_raises:
  assumes "py_isdigit_char a \<or> a = CHR '':''" "py_isdigit_char b \<or> b = CHR '':''"
    and "\<not> (py_isdecimal_char a \<and> py_isdecimal_char b)"
  shows "py_int_str [a, b] = Inl ValueError"
  using assms digitish_plain [of a] digitish_plain [of b]
  by (auto simp: py_int_str_def Let_def)

lemma format_02d_two_decimal:
  assumes "py_isdecimal_char a" "py_isdecimal_char b"
  shows "format_02d (digit_value a * 10 + digit_value b) = [a, b]"
proof -
  have b: "0 \<le> digit_value b" "digit_value b \<le> 9" using assms decimal_plain by blast+
  have "(digit_value a * 10 + digit_value b) div 10 = digit_value a" using b by simp
  moreover have "(digit_value a * 10 + digit_value b) mod 10 = digit_value b" using b by simp
  ultimately show ?thesis using assms by (simp add: format_02d_def decimal_plain)
qed

lemma five_chars:
  assumes "length s = 5"
  shows "s = [s ! 0, s ! 1, s ! 2, s ! 3, s ! 4]"
proof -
  from assms have "length s = Suc (Suc (Suc (Suc (Suc 0))))" by simp
  then obtain a b c d e where "s = [a, b, c, d, e]"
    by (auto simp: length_Suc_conv)
  then show ?thesis by simp
qed

lemma norm_hhmm_shape:
  assumes t: "py_strip v = [a, b, CHR '':'', d, e]"
    and dig: "py_isdigit (filter (\<lambda>c. c \<noteq> CHR '':'') [a, b, CHR '':'', d, e])"
  shows "norm_hhmm v =
    (if py_isdecimal_char a \<and> py_isdecimal_char b \<and> py_isdecimal_char d \<and> py_isdecimal_char e
     then (if digit_value a * 10 + digit_value b \<le> 23 \<and> digit_value d * 10 + digit_value e \<le> 59
           then Inr [a, b, CHR '':'', d, e] else Inr [])
     else Inl ValueError)"
proof -
  have each: "py_isdigit_char a \<or> a = CHR '':''" "py_isdigit_char b \<or> b = CHR '':''"
    "py_isdigit_char d \<or> d = CHR '':''" "py_isdigit_char e \<or> e = CHR '':''"
    using dig by (auto simp: py_isdigit_def split: if_splits)
  have d3: "drop 3 [a, b, CHR '':'', d, e] = [d, e]" and t2: "take 2 [a, b, CHR '':'', d, e] = [a, b]"
    by (simp_all add: eval_nat_numeral)
  have unfold: "norm_hhmm v =
      (case py_int_str [a, b] of
         Inl x \<Rightarrow> Inl x
       | Inr hh \<Rightarrow>
           (case py_int_str [d, e] of
              Inl x \<Rightarrow> Inl x
            | Inr mm \<Rightarrow>
                if 0 \<le> hh \<and> hh \<le> 23 \<and> 0 \<le> mm \<and> mm \<le> 59
                then Inr (format_02d hh @ '':'' @ format_02d mm)
                else Inr []))"
    using dig unfolding norm_hhmm_def Let_def t d3 t2 by simp
  show ?thesis
  proof (cases "py_isdecimal_char a \<and> py_isdecimal_char b")
    case ab: True
    then have hh: "py_int_str [a, b] = Inr (digit_value a * 10 + digit_value b)"
      by (simp add: py_int_str_two_decimal)
    have hh0: "0 \<le> digit_value a * 10 + digit_value b"
      using ab decimal_plain(6) [of a] decimal_plain(6) [of b] by simp
    show ?thesis
    proof (cases "py_isdecimal_char d \<and> py_isdecimal_char e")
      case de: True
      then have mm: "py_int_str [d, e] = Inr (digit_value d * 10 + digit_value e)"
        by (simp add: py_int_str_two_decimal)
      have mm0: "0 \<le> digit_value d * 10 + digit_value e"
        using de decimal_plain(6) [of d] decimal_plain(6) [of e] by simp
      show ?thesis
        unfolding unfold hh mm using ab de hh0 mm0
        by (simp add: format_02d_two_decimal)
    next
      case de: False
      then have "py_int_str [d, e] = Inl ValueError"
        using each by (intro py_int_str_two_raises) simp_all
      then show ?thesis unfolding unfold hh using de by auto
    qed
  next
    case ab: False
    then have "py_int_str [a, b] = Inl ValueError"
      using each by (intro py_int_str_two_raises) simp_all
    then show ?thesis unfolding unfold using ab by auto
  qed
qed

lemma is_hhmm_shape:
  "is_hhmm [a, b, c, d, e] =
     (py_isdecimal_char a \<and> py_isdecimal_char b \<and> c = CHR '':'' \<and>
      py_isdecimal_char d \<and> py_isdecimal_char e \<and>
      digit_value a * 10 + digit_value b \<le> 23 \<and> digit_value d * 10 + digit_value e \<le> 59)"
  by (simp add: is_hhmm_def)

lemma decimal_isdigit: "py_isdecimal_char c \<Longrightarrow> py_isdigit_char c"
  by (simp add: py_isdecimal_char_def py_isdigit_char_def Let_def)

lemma is_hhmm_guard:
  assumes "is_hhmm s"
  shows "length s = 5 \<and> s ! 2 = CHR '':'' \<and> py_isdigit (filter (\<lambda>c. c \<noteq> CHR '':'') s)"
proof -
  from assms have len: "length s = 5" by (simp add: is_hhmm_def)
  obtain a b c d e where s: "s = [a, b, c, d, e]" using five_chars [OF len] by metis
  from assms have h: "py_isdecimal_char a" "py_isdecimal_char b" "c = CHR '':''"
    "py_isdecimal_char d" "py_isdecimal_char e"
    unfolding s is_hhmm_shape by simp_all
  then show ?thesis
    unfolding s using decimal_plain(5) [of a] decimal_plain(5) [of b]
      decimal_plain(5) [of d] decimal_plain(5) [of e]
    by (simp add: py_isdigit_def decimal_isdigit)
qed

lemma norm_hhmm_eq:
  "norm_hhmm v =
     (if is_hhmm (py_strip v) then Inr (py_strip v)
      else if int_raises (py_strip v) then Inl ValueError else Inr [])"
proof (cases "length (py_strip v) = 5 \<and> py_strip v ! 2 = CHR '':'' \<and>
    py_isdigit (filter (\<lambda>c. c \<noteq> CHR '':'') (py_strip v))")
  case False
  have "\<not> is_hhmm (py_strip v)" using False is_hhmm_guard by blast
  moreover have "\<not> int_raises (py_strip v)" using False by (auto simp: int_raises_def)
  moreover have "norm_hhmm v = Inr []" using False by (auto simp: norm_hhmm_def Let_def)
  ultimately show ?thesis by simp
next
  case True
  then have len: "length (py_strip v) = 5" by simp
  obtain a b c d e where t0: "py_strip v = [a, b, c, d, e]"
    using five_chars [OF len] by metis
  with True have "c = CHR '':''" by simp
  with t0 have t: "py_strip v = [a, b, CHR '':'', d, e]" by simp
  have dig: "py_isdigit (filter (\<lambda>c. c \<noteq> CHR '':'') [a, b, CHR '':'', d, e])"
    using True t by simp
  show ?thesis
    unfolding norm_hhmm_shape [OF t dig] t is_hhmm_shape
    using dig by (simp add: int_raises_def)
qed

text \<open>
  The dictionaries of a list of entries, what \<open>_normalize_cards\<close> reads of one of them,
  whether it keeps it, and the card it builds for it.
\<close>

fun dict_entries :: "raw_entry list \<Rightarrow> pydict list" where
  "dict_entries [] = []"
| "dict_entries (NotADict # rest) = dict_entries rest"
| "dict_entries (Dict d # rest) = d # dict_entries rest"

definition entry_start :: "pydict \<Rightarrow> string" where
  "entry_start d = py_strip (dict_get d ''start'' '''')"

definition entry_end :: "pydict \<Rightarrow> string" where
  "entry_end d = py_strip (dict_get d ''end'' '''')"

definition entry_title :: "pydict \<Rightarrow> string" where
  "entry_title d = py_strip (dict_get d ''title'' '''')"

definition entry_kept :: "pydict \<Rightarrow> bool" where
  "entry_kept d = (is_hhmm (entry_start d) \<and> is_hhmm (entry_end d) \<and> entry_title d \<noteq> [])"

definition entry_raises :: "pydict \<Rightarrow> bool" where
  "entry_raises d = (int_raises (entry_start d) \<or> int_raises (entry_end d))"

definition entry_card :: "pydict \<Rightarrow> pydict" where
  "entry_card d =
     card_dict (entry_start d) (entry_end d) (entry_title d)
       (py_strip (dict_get d ''summary'' ''''))
       (if py_strip (dict_get d ''category'' ''Other'') = [] then ''Other''
        else py_strip (dict_get d ''category'' ''Other''))"

lemma norm_hhmm_entry:
  "norm_hhmm (py_strip x) =
     (if is_hhmm (py_strip x) then Inr (py_strip x)
      else if int_raises (py_strip x) then Inl ValueError else Inr [])"
  using norm_hhmm_eq [of "py_strip x"] by (simp only: py_strip_idem)

lemma is_hhmm_nonempty: "is_hhmm s \<Longrightarrow> s \<noteq> []"
  by (auto simp: is_hhmm_def)

lemma is_hhmm_not_raises: "is_hhmm s \<Longrightarrow> \<not> int_raises s"
  by (simp add: is_hhmm_def int_raises_def)

lemma normalize_entries_step:
  assumes "\<not> entry_raises d"
  shows "normalize_entries (Dict d # rest) cards =
           normalize_entries rest (if entry_kept d then cards @ [entry_card d] else cards)"
proof -
  have s: "norm_hhmm (py_strip (dict_get d ''start'' '''')) =
      (if is_hhmm (entry_start d) then Inr (entry_start d) else Inr [])"
    using assms norm_hhmm_entry [of "dict_get d ''start'' ''''"]
    by (simp add: entry_start_def entry_raises_def)
  have e: "norm_hhmm (py_strip (dict_get d ''end'' '''')) =
      (if is_hhmm (entry_end d) then Inr (entry_end d) else Inr [])"
    using assms norm_hhmm_entry [of "dict_get d ''end'' ''''"]
    by (simp add: entry_end_def entry_raises_def)
  show ?thesis
    unfolding normalize_entries.simps s e
    by (simp add: Let_def entry_kept_def entry_card_def entry_title_def is_hhmm_nonempty)
qed

lemma normalize_entries_raises:
  assumes "entry_raises d"
  shows "normalize_entries (Dict d # rest) cards = Inl ValueError"
proof (cases "int_raises (entry_start d)")
  case True
  then have "norm_hhmm (py_strip (dict_get d ''start'' '''')) = Inl ValueError"
    using norm_hhmm_entry [of "dict_get d ''start'' ''''"] is_hhmm_not_raises
    by (auto simp: entry_start_def)
  then show ?thesis by simp
next
  case False
  with assms have r: "int_raises (entry_end d)" by (simp add: entry_raises_def)
  have s: "norm_hhmm (py_strip (dict_get d ''start'' '''')) =
      (if is_hhmm (entry_start d) then Inr (entry_start d) else Inr [])"
    using False norm_hhmm_entry [of "dict_get d ''start'' ''''"]
    by (simp add: entry_start_def)
  have e: "norm_hhmm (py_strip (dict_get d ''end'' '''')) = Inl ValueError"
    using r norm_hhmm_entry [of "dict_get d ''end'' ''''"] is_hhmm_not_raises
    by (auto simp: entry_end_def)
  show ?thesis unfolding normalize_entries.simps s e by simp
qed


lemma normalize_entries_some_raise:
  "\<exists>d \<in> set (dict_entries entries). entry_raises d \<Longrightarrow>
   normalize_entries entries cards = Inl ValueError"
proof (induction entries arbitrary: cards)
  case Nil
  then show ?case by simp
next
  case (Cons entry rest)
  show ?case
  proof (cases entry)
    case NotADict
    with Cons show ?thesis by simp
  next
    case (Dict d)
    show ?thesis
    proof (cases "entry_raises d")
      case True
      then show ?thesis unfolding Dict by (rule normalize_entries_raises)
    next
      case False
      with Cons.prems Dict have "\<exists>d \<in> set (dict_entries rest). entry_raises d" by simp
      then show ?thesis
        unfolding Dict normalize_entries_step [OF False] by (rule Cons.IH)
    qed
  qed
qed

text \<open>
  The two cards of test\_normalize\_cards\_filters\_invalid, a card with the three required
  fields only, the same card with a space before its start, and a card whose start has a
  second colon.
\<close>

definition work_entry :: pydict where
  "work_entry =
     [''start'' \<mapsto> ''09:00'', ''end'' \<mapsto> ''09:30'', ''title'' \<mapsto> ''Work'', ''summary'' \<mapsto> ''x'',
      ''category'' \<mapsto> ''Coding'']"

definition bad_entry :: pydict where
  "bad_entry =
     [''start'' \<mapsto> ''bad'', ''end'' \<mapsto> ''09:30'', ''title'' \<mapsto> ''Bad'', ''summary'' \<mapsto> [],
      ''category'' \<mapsto> ''Other'']"

definition bare_entry :: pydict where
  "bare_entry = [''start'' \<mapsto> ''09:00'', ''end'' \<mapsto> ''09:30'', ''title'' \<mapsto> ''Work'']"

definition padded_entry :: pydict where
  "padded_entry = [''start'' \<mapsto> '' 09:00'', ''end'' \<mapsto> ''09:30'', ''title'' \<mapsto> ''Work'']"

definition colon_entry :: pydict where
  "colon_entry = [''start'' \<mapsto> ''1::00'', ''end'' \<mapsto> ''09:30'', ''title'' \<mapsto> ''Bad'']"

lemma example_entries:
  "entry_kept work_entry" "\<not> entry_kept bad_entry" "entry_kept bare_entry" "entry_kept padded_entry"
  "\<not> entry_raises work_entry" "\<not> entry_raises bad_entry" "\<not> entry_raises bare_entry"
  "\<not> entry_raises padded_entry" "entry_raises colon_entry"
  by code_simp+



text \<open>
  The shape test of \<open>_norm_hhmm\<close> removes every colon before it asks \<open>isdigit\<close>, and
  \<open>isdigit\<close> accepts the superscript digits; a text such as \<open>1::00\<close> passes it, and
  \<open>int\<close> then raises \<open>ValueError\<close>, which nothing in \<open>_normalize_cards\<close> catches: the
  whole batch is lost, valid cards with it.
\<close>

lemma normalize_cards_raises_on_stray_colon:
  "normalize_cards (RawList [Dict work_entry, Dict colon_entry]) = Inl ValueError"
  using normalize_entries_some_raise [of "[Dict work_entry, Dict colon_entry]" "[]"]
  by (simp add: normalize_cards_def example_entries)




section \<open>Reading the provider's answer (ai.py)\<close>

text \<open>
  \<open>json.loads\<close> belongs to Python's library, not to the repository. \<open>_parse_ai_json\<close> is
  first modelled over any decoder (\<open>parse_ai_json_with\<close>, \<open>None\<close> for
  \<open>JSONDecodeError\<close>), and then with \<open>json_loads\<close>, a model of the library's decoder in
  its default configuration: whitespace is space, tab, line feed and carriage return; a
  string ends at the next unescaped quote, holds no raw control character, and its
  \<open>\\uXXXX\<close> escapes are joined where they form a surrogate pair; a number is an
  integer, or a float when it has a fraction or an exponent; \<open>NaN\<close>, \<open>Infinity\<close> and
  \<open>-Infinity\<close> are accepted; of two members with one key the later value is kept at the
  place of the first. A decoded string is a list of code points, since an escape can
  name any of them. A float is held by its exact value, of which Python keeps the nearest
  double. The decoder recurses on nested values with fuel: \<open>scan_once\<close> is the library's
  \<open>scan_once\<close>, \<open>parse_array\<close> and \<open>parse_object\<close> its loops over the elements and the
  members, each started at a value and at a key. Texts nested deeper than the
  interpreter's recursion limit, on which the library raises \<open>RecursionError\<close>, are
  outside the model.
\<close>

datatype json =
    JNull
  | JBool bool
  | JInt int
  | JFloat rat
  | JNaN
  | JInfinity bool
  | JString "nat list"
  | JArray "json list"
  | JObject "(nat list \<times> json) list"

definition json_ws :: "char \<Rightarrow> bool" where
  "json_ws c = (c = CHR '' '' \<or> c = CHR 0x09 \<or> c = CHR 0x0A \<or> c = CHR 0x0D)"

definition skip_ws :: "string \<Rightarrow> string" where
  "skip_ws s = dropWhile json_ws s"

definition hex_value :: "char \<Rightarrow> nat option" where
  "hex_value c =
     (let n = (of_char c :: nat)
      in if 48 \<le> n \<and> n \<le> 57 then Some (n - 48)
         else if 97 \<le> n \<and> n \<le> 102 then Some (n - 87)
         else if 65 \<le> n \<and> n \<le> 70 then Some (n - 55)
         else None)"

definition simple_escape :: "char \<Rightarrow> nat option" where
  "simple_escape c =
     (if c = CHR 0x22 then Some 34
      else if c = CHR 0x5C then Some 92
      else if c = CHR ''/'' then Some 47
      else if c = CHR ''b'' then Some 8
      else if c = CHR ''f'' then Some 12
      else if c = CHR ''n'' then Some 10
      else if c = CHR ''r'' then Some 13
      else if c = CHR ''t'' then Some 9
      else None)"

definition is_high_surrogate :: "nat \<Rightarrow> bool" where
  "is_high_surrogate u = (55296 \<le> u \<and> u \<le> 56319)"

definition is_low_surrogate :: "nat \<Rightarrow> bool" where
  "is_low_surrogate u = (56320 \<le> u \<and> u \<le> 57343)"

definition join_surrogates :: "nat \<Rightarrow> nat \<Rightarrow> nat" where
  "join_surrogates hi lo = 65536 + (hi - 55296) * 1024 + (lo - 56320)"

datatype scan_state = InText | AfterBackslash | InHex nat nat

definition flush :: "nat option \<Rightarrow> nat list \<Rightarrow> nat list" where
  "flush pending acc = (case pending of None \<Rightarrow> acc | Some hi \<Rightarrow> acc @ [hi])"

fun scan_string :: "scan_state \<Rightarrow> nat option \<Rightarrow> nat list \<Rightarrow> string \<Rightarrow> (nat list \<times> string) option" where
  "scan_string st pending acc [] = None"
| "scan_string InText pending acc (c # cs) =
     (if c = CHR 0x22 then Some (flush pending acc, cs)
      else if c = CHR 0x5C then scan_string AfterBackslash pending acc cs
      else if (of_char c :: nat) < 32 then None
      else scan_string InText None (flush pending acc @ [of_char c]) cs)"
| "scan_string AfterBackslash pending acc (c # cs) =
     (if c = CHR ''u'' then scan_string (InHex 0 0) pending acc cs
      else (case simple_escape c of
              None \<Rightarrow> None
            | Some e \<Rightarrow> scan_string InText None (flush pending acc @ [e]) cs))"
| "scan_string (InHex k v) pending acc (c # cs) =
     (case hex_value c of
        None \<Rightarrow> None
      | Some h \<Rightarrow>
          if k < 3 then scan_string (InHex (k + 1) (v * 16 + h)) pending acc cs
          else
            (let u = v * 16 + h
             in case pending of
                  Some hi \<Rightarrow>
                    if is_low_surrogate u
                    then scan_string InText None (acc @ [join_surrogates hi u]) cs
                    else if is_high_surrogate u
                    then scan_string InText (Some u) (acc @ [hi]) cs
                    else scan_string InText None (acc @ [hi, u]) cs
                | None \<Rightarrow>
                    if is_high_surrogate u then scan_string InText (Some u) acc cs
                    else scan_string InText None (acc @ [u]) cs))"

definition digits_value :: "string \<Rightarrow> int" where
  "digits_value ds = foldl (\<lambda>a c. a * 10 + digit_value c) 0 ds"

definition scan_fraction :: "string \<Rightarrow> string \<times> string" where
  "scan_fraction s =
     (case s of
        c # d # rest \<Rightarrow>
          if c = CHR ''.'' \<and> py_isdecimal_char d
          then (d # takeWhile py_isdecimal_char rest, dropWhile py_isdecimal_char rest)
          else ([], s)
      | _ \<Rightarrow> ([], s))"

definition scan_exponent :: "string \<Rightarrow> int option \<times> string" where
  "scan_exponent s =
     (case s of
        [] \<Rightarrow> (None, s)
      | c # rest \<Rightarrow>
          if c = CHR ''e'' \<or> c = CHR ''E''
          then
            (let negative = (rest \<noteq> [] \<and> hd rest = CHR ''-'');
                 body = (if rest \<noteq> [] \<and> (hd rest = CHR ''-'' \<or> hd rest = CHR ''+'')
                         then tl rest else rest);
                 ds = takeWhile py_isdecimal_char body
             in if ds = [] then (None, s)
                else (Some (if negative then - digits_value ds else digits_value ds),
                      dropWhile py_isdecimal_char body))
          else (None, s))"

definition number_value :: "bool \<Rightarrow> string \<Rightarrow> string \<Rightarrow> int option \<Rightarrow> json" where
  "number_value negative ds fr ex =
     (if fr = [] \<and> ex = None
      then JInt (if negative then - digits_value ds else digits_value ds)
      else
        (let mant = of_int (digits_value (ds @ fr)) / 10 ^ length fr;
             e = (case ex of None \<Rightarrow> 0 | Some k \<Rightarrow> k);
             v = (if 0 \<le> e then mant * 10 ^ nat e else mant / 10 ^ nat (- e))
         in JFloat (if negative then - v else v)))"

definition scan_number :: "string \<Rightarrow> (json \<times> string) option" where
  "scan_number s =
     (let negative = (s \<noteq> [] \<and> hd s = CHR ''-'');
          s1 = (if negative then tl s else s)
      in case s1 of
           [] \<Rightarrow> None
         | c # cs \<Rightarrow>
             if py_isdecimal_char c
             then
               (let ds = (if c = CHR ''0'' then [c] else c # takeWhile py_isdecimal_char cs);
                    rest = (if c = CHR ''0'' then cs else dropWhile py_isdecimal_char cs);
                    fr = scan_fraction rest;
                    ex = scan_exponent (snd fr)
                in Some (number_value negative ds (fst fr) (fst ex), snd ex))
             else None)"

definition strip_prefix :: "string \<Rightarrow> string \<Rightarrow> string option" where
  "strip_prefix p s = (if take (length p) s = p then Some (drop (length p) s) else None)"

fun dict_set :: "(nat list \<times> json) list \<Rightarrow> nat list \<Rightarrow> json \<Rightarrow> (nat list \<times> json) list" where
  "dict_set [] k v = [(k, v)]"
| "dict_set ((k', v') # rest) k v =
     (if k' = k then (k, v) # rest else (k', v') # dict_set rest k v)"

definition scan_literal :: "string \<Rightarrow> (json \<times> string) option" where
  "scan_literal s =
     (case strip_prefix ''null'' s of Some r \<Rightarrow> Some (JNull, r) | None \<Rightarrow>
      case strip_prefix ''true'' s of Some r \<Rightarrow> Some (JBool True, r) | None \<Rightarrow>
      case strip_prefix ''false'' s of Some r \<Rightarrow> Some (JBool False, r) | None \<Rightarrow>
      case strip_prefix ''NaN'' s of Some r \<Rightarrow> Some (JNaN, r) | None \<Rightarrow>
      case strip_prefix ''Infinity'' s of Some r \<Rightarrow> Some (JInfinity True, r) | None \<Rightarrow>
      case strip_prefix ''-Infinity'' s of Some r \<Rightarrow> Some (JInfinity False, r) | None \<Rightarrow>
      scan_number s)"

fun scan_once :: "nat \<Rightarrow> string \<Rightarrow> (json \<times> string) option"
  and parse_array :: "nat \<Rightarrow> string \<Rightarrow> json list \<Rightarrow> (json \<times> string) option"
  and parse_object :: "nat \<Rightarrow> string \<Rightarrow> (nat list \<times> json) list \<Rightarrow> (json \<times> string) option"
where
  "scan_once 0 s = None"
| "scan_once (Suc n) [] = None"
| "scan_once (Suc n) (c # cs) =
     (if c = CHR 0x22 then
        (case scan_string InText None [] cs of
           None \<Rightarrow> None
         | Some (str, rest) \<Rightarrow> Some (JString str, rest))
      else if c = CHR ''{'' then
        (case skip_ws cs of
           [] \<Rightarrow> None
         | d # rest \<Rightarrow>
             if d = CHR ''}'' then Some (JObject [], rest)
             else parse_object n (d # rest) [])
      else if c = CHR ''['' then
        (case skip_ws cs of
           [] \<Rightarrow> None
         | d # rest \<Rightarrow>
             if d = CHR '']'' then Some (JArray [], rest)
             else parse_array n (d # rest) [])
      else scan_literal (c # cs))"
| "parse_array 0 s acc = None"
| "parse_array (Suc n) s acc =
     (case scan_once n s of
        None \<Rightarrow> None
      | Some (v, rest) \<Rightarrow>
          (case skip_ws rest of
             [] \<Rightarrow> None
           | d # rest' \<Rightarrow>
               if d = CHR '']'' then Some (JArray (acc @ [v]), rest')
               else if d = CHR '','' then parse_array n (skip_ws rest') (acc @ [v])
               else None))"
| "parse_object 0 s acc = None"
| "parse_object (Suc n) [] acc = None"
| "parse_object (Suc n) (c # cs) acc =
     (if c = CHR 0x22 then
        (case scan_string InText None [] cs of
           None \<Rightarrow> None
         | Some (key, rest) \<Rightarrow>
             (case skip_ws rest of
                [] \<Rightarrow> None
              | d # rest1 \<Rightarrow>
                  if d = CHR '':'' then
                    (case scan_once n (skip_ws rest1) of
                       None \<Rightarrow> None
                     | Some (v, rest2) \<Rightarrow>
                         (case skip_ws rest2 of
                            [] \<Rightarrow> None
                          | e # rest3 \<Rightarrow>
                              if e = CHR ''}'' then Some (JObject (dict_set acc key v), rest3)
                              else if e = CHR '','' then
                                parse_object n (skip_ws rest3) (dict_set acc key v)
                              else None))
                  else None))
      else None)"

definition json_loads :: "string \<Rightarrow> json option" where
  "json_loads s =
     (case scan_once (2 * length s + 2) (skip_ws s) of
        None \<Rightarrow> None
      | Some (v, rest) \<Rightarrow> if skip_ws rest = [] then Some v else None)"

text \<open>
  \<open>s.find(c)\<close> and \<open>s.rfind(c)\<close> for a character, and the slice \<open>s[i:j]\<close> for indices
  that are not negative.
\<close>

definition py_find :: "char \<Rightarrow> string \<Rightarrow> int" where
  "py_find c s = (if c \<in> set s then int (length (takeWhile (\<lambda>x. x \<noteq> c) s)) else - 1)"

definition py_rfind :: "char \<Rightarrow> string \<Rightarrow> int" where
  "py_rfind c s =
     (if c \<in> set s then int (length s) - 1 - int (length (takeWhile (\<lambda>x. x \<noteq> c) (rev s)))
      else - 1)"

definition py_slice :: "string \<Rightarrow> int \<Rightarrow> int \<Rightarrow> string" where
  "py_slice s i j = take (nat j - nat i) (drop (nat i) s)"

definition parse_ai_json_with :: "(string \<Rightarrow> json option) \<Rightarrow> string \<Rightarrow> py_error + json" where
  "parse_ai_json_with loads text =
     (let trimmed = py_strip text
      in if trimmed = [] then Inl (RuntimeError ''AI response was empty.'')
         else
           (case loads trimmed of
              Some v \<Rightarrow> Inr v
            | None \<Rightarrow>
                (let start = py_find (CHR ''{'') trimmed;
                     stop = py_rfind (CHR ''}'') trimmed
                 in if start = - 1 \<or> stop = - 1 \<or> start \<ge> stop
                    then Inl (RuntimeError ''AI response did not contain valid JSON.'')
                    else
                      (case loads (py_slice trimmed start (stop + 1)) of
                         Some v \<Rightarrow> Inr v
                       | None \<Rightarrow> Inl (RuntimeError ''AI response contained invalid JSON.'')))))"

definition parse_ai_json :: "string \<Rightarrow> py_error + json" where
  "parse_ai_json text = parse_ai_json_with json_loads text"

text \<open>The raw text of test\_parse\_ai\_json\_with\_wrapped\_text.\<close>

definition test_raw :: string where
  "test_raw = ''Here is result:'' @ [CHR 0x0A] @ ''{'' @ [CHR 0x22] @ ''cards'' @ [CHR 0x22] @
     '': [], '' @ [CHR 0x22] @ ''daily_summary'' @ [CHR 0x22] @ '': '' @ [CHR 0x22] @ ''ok'' @
     [CHR 0x22] @ ''}'' @ [CHR 0x0A]"

text \<open>
  The fuel that \<open>json_loads\<close> gives is enough. Every value the decoder reads takes at least
  one character, and on a text of length \<open>n\<close> the decoder answers the same with any fuel
  of \<open>2 * n + 2\<close> or more: \<open>None\<close> from \<open>json_loads\<close> is a text the decoder rejects,
  never the end of the fuel.
\<close>

lemma skip_ws_length: "length (skip_ws s) \<le> length s"
  by (simp add: skip_ws_def length_dropWhile_le)

lemma scan_string_consumes:
  "scan_string st pending acc s = Some (x, r) \<Longrightarrow> length r < length s"
proof (induction s arbitrary: st pending acc)
  case Nil
  then show ?case by simp
next
  case (Cons c cs)
  have step: "length r < Suc (length cs)"
    if "scan_string st' p' a' cs = Some (x, r)" for st' p' a'
    using Cons.IH [OF that] by simp
  show ?case
  proof (cases st)
    case InText
    with Cons.prems show ?thesis by (auto split: if_splits dest: step)
  next
    case AfterBackslash
    with Cons.prems show ?thesis by (auto split: if_splits option.splits dest: step)
  next
    case (InHex k v)
    with Cons.prems show ?thesis
      by (auto simp: Let_def split: if_splits option.splits dest: step)
  qed
qed

lemma strip_prefix_consumes:
  "strip_prefix p s = Some r \<Longrightarrow> p \<noteq> [] \<Longrightarrow> length r < length s"
  by (cases s) (auto simp: strip_prefix_def split: if_splits)

lemma scan_fraction_length: "length (snd (scan_fraction s)) \<le> length s"
proof -
  have "length (dropWhile py_isdecimal_char r) \<le> length r" for r
    by (rule length_dropWhile_le)
  then show ?thesis
    by (auto simp: scan_fraction_def le_SucI split: list.splits)
qed

lemma scan_exponent_length: "length (snd (scan_exponent s)) \<le> length s"
proof (cases s)
  case Nil
  then show ?thesis by (simp add: scan_exponent_def)
next
  case (Cons c rest)
  let ?body = "if rest \<noteq> [] \<and> (hd rest = CHR ''-'' \<or> hd rest = CHR ''+'') then tl rest else rest"
  have "length ?body \<le> length rest" by simp
  moreover have "length (dropWhile py_isdecimal_char ?body) \<le> length ?body"
    by (rule length_dropWhile_le)
  ultimately have "length (dropWhile py_isdecimal_char ?body) \<le> length rest" by linarith
  then show ?thesis
    unfolding Cons scan_exponent_def by (simp add: Let_def)
qed

lemma scan_number_consumes:
  assumes "scan_number s = Some (v, r)"
  shows "length r < length s"
proof -
  let ?neg = "s \<noteq> [] \<and> hd s = CHR ''-''"
  let ?s1 = "if ?neg then tl s else s"
  have s1: "length ?s1 \<le> length s" by simp
  from assms obtain c cs where c: "?s1 = c # cs"
    by (cases ?s1) (auto simp: scan_number_def Let_def)
  let ?rest = "if c = CHR ''0'' then cs else dropWhile py_isdecimal_char cs"
  have rest: "length ?rest \<le> length cs" by (simp add: length_dropWhile_le)
  from assms c have r: "r = snd (scan_exponent (snd (scan_fraction ?rest)))"
    by (auto simp: scan_number_def Let_def split: if_splits)
  have "length r \<le> length (snd (scan_fraction ?rest))"
    unfolding r by (rule scan_exponent_length)
  also have "\<dots> \<le> length ?rest" by (rule scan_fraction_length)
  also have "\<dots> \<le> length cs" by (rule rest)
  finally have "length r < length ?s1" using c by simp
  with s1 show ?thesis by linarith
qed

lemma scan_literal_consumes:
  "scan_literal s = Some (v, r) \<Longrightarrow> length r < length s"
  by (auto simp: scan_literal_def split: option.splits
      dest: strip_prefix_consumes scan_number_consumes)

lemma decoder_consumes:
  "(\<forall>s v r. scan_once n s = Some (v, r) \<longrightarrow> length r < length s) \<and>
   (\<forall>s acc v r. parse_array n s acc = Some (v, r) \<longrightarrow> length r < length s) \<and>
   (\<forall>s acc v r. parse_object n s acc = Some (v, r) \<longrightarrow> length r < length s)"
proof (induction n)
  case 0
  show ?case by simp
next
  case (Suc n)
  have so: "length r < length s" if "scan_once n s = Some (v, r)" for s v r
    using Suc that by blast
  have pa: "length r < length s" if "parse_array n s acc = Some (v, r)" for s acc v r
    using Suc that by blast
  have po: "length r < length s" if "parse_object n s acc = Some (v, r)" for s acc v r
    using Suc that by blast
  have 1: "length r < length s" if h: "scan_once (Suc n) s = Some (v, r)" for s v r
  proof (cases s)
    case Nil
    with h show ?thesis by simp
  next
    case (Cons c cs)
    show ?thesis
    proof (cases "c = CHR 0x22")
      case True
      with h Cons obtain str where "scan_string InText None [] cs = Some (str, r)"
        by (auto split: option.splits)
      then have "length r < length cs" by (rule scan_string_consumes)
      with Cons show ?thesis by simp
    next
      case q: False
      show ?thesis
      proof (cases "c = CHR ''{''")
        case True
        from h Cons q True obtain d rest where d: "skip_ws cs = d # rest"
          by (cases "skip_ws cs") auto
        have le: "length (d # rest) \<le> length cs" using skip_ws_length [of cs] d by simp
        show ?thesis
        proof (cases "d = CHR ''}''")
          case True
          with h Cons q \<open>c = CHR ''{''\<close> d have "r = rest" by simp
          with le Cons show ?thesis by simp
        next
          case False
          with h Cons q \<open>c = CHR ''{''\<close> d have "parse_object n (d # rest) [] = Some (v, r)"
            by simp
          then have "length r < length (d # rest)" by (rule po)
          with le Cons show ?thesis by simp
        qed
      next
        case b: False
        show ?thesis
        proof (cases "c = CHR ''[''")
          case True
          from h Cons q b True obtain d rest where d: "skip_ws cs = d # rest"
            by (cases "skip_ws cs") auto
          have le: "length (d # rest) \<le> length cs" using skip_ws_length [of cs] d by simp
          show ?thesis
          proof (cases "d = CHR '']''")
            case True
            with h Cons q b \<open>c = CHR ''[''\<close> d have "r = rest" by simp
            with le Cons show ?thesis by simp
          next
            case False
            with h Cons q b \<open>c = CHR ''[''\<close> d have "parse_array n (d # rest) [] = Some (v, r)"
              by simp
            then have "length r < length (d # rest)" by (rule pa)
            with le Cons show ?thesis by simp
          qed
        next
          case False
          with h Cons q b have "scan_literal (c # cs) = Some (v, r)" by simp
          then show ?thesis unfolding Cons by (rule scan_literal_consumes)
        qed
      qed
    qed
  qed
  have 2: "length r < length s" if h: "parse_array (Suc n) s acc = Some (v, r)" for s acc v r
  proof -
    from h obtain w rest where w: "scan_once n s = Some (w, rest)"
      by (auto split: option.splits)
    then have l1: "length rest < length s" by (rule so)
    from h w obtain d rest' where d: "skip_ws rest = d # rest'"
      by (cases "skip_ws rest") auto
    have l2: "length (d # rest') \<le> length rest" using skip_ws_length [of rest] d by simp
    show ?thesis
    proof (cases "d = CHR '']''")
      case True
      with h w d have "r = rest'" by simp
      with l1 l2 show ?thesis by simp
    next
      case False
      with h w d have c: "d = CHR '',''" and
        p: "parse_array n (skip_ws rest') (acc @ [w]) = Some (v, r)"
        by (auto split: if_splits)
      from p have "length r < length (skip_ws rest')" by (rule pa)
      with skip_ws_length [of rest'] l1 l2 show ?thesis by simp
    qed
  qed
  have 3: "length r < length s" if h: "parse_object (Suc n) s acc = Some (v, r)" for s acc v r
  proof (cases s)
    case Nil
    with h show ?thesis by simp
  next
    case (Cons c cs)
    with h have q: "c = CHR 0x22" by (auto split: if_splits)
    from h Cons q obtain key rest where k: "scan_string InText None [] cs = Some (key, rest)"
      by (auto split: option.splits)
    then have l1: "length rest < length cs" by (rule scan_string_consumes)
    from h Cons q k obtain d rest1 where d: "skip_ws rest = d # rest1"
      by (cases "skip_ws rest") auto
    have l2: "length (d # rest1) \<le> length rest" using skip_ws_length [of rest] d by simp
    from h Cons q k d have colon: "d = CHR '':''" by (auto split: if_splits)
    from h Cons q k d colon obtain w rest2 where
      w: "scan_once n (skip_ws rest1) = Some (w, rest2)"
      by (auto split: option.splits)
    then have "length rest2 < length (skip_ws rest1)" by (rule so)
    with skip_ws_length [of rest1] have l3: "length rest2 < length rest1" by linarith
    from h Cons q k d colon w obtain e rest3 where e: "skip_ws rest2 = e # rest3"
      by (cases "skip_ws rest2") auto
    have l4: "length (e # rest3) \<le> length rest2" using skip_ws_length [of rest2] e by simp
    show ?thesis
    proof (cases "e = CHR ''}''")
      case True
      with h Cons q k d colon w e have "r = rest3" by simp
      with l1 l2 l3 l4 Cons show ?thesis by simp
    next
      case False
      with h Cons q k d colon w e have
        p: "parse_object n (skip_ws rest3) (dict_set acc key w) = Some (v, r)"
        by (auto split: if_splits)
      from p have "length r < length (skip_ws rest3)" by (rule po)
      with skip_ws_length [of rest3] l1 l2 l3 l4 Cons show ?thesis by simp
    qed
  qed
  from 1 2 3 show ?case by blast
qed

lemma scan_once_consumes: "scan_once n s = Some (v, r) \<Longrightarrow> length r < length s"
  using decoder_consumes [of n] by blast

lemma decoder_fuel:
  "(\<forall>n m. 2 * length s + 1 \<le> n \<and> 2 * length s + 1 \<le> m \<longrightarrow> scan_once n s = scan_once m s) \<and>
   (\<forall>n m acc. 2 * length s + 2 \<le> n \<and> 2 * length s + 2 \<le> m \<longrightarrow>
      parse_array n s acc = parse_array m s acc) \<and>
   (\<forall>n m acc. 2 * length s + 2 \<le> n \<and> 2 * length s + 2 \<le> m \<longrightarrow>
      parse_object n s acc = parse_object m s acc)"
proof (induction s rule: length_induct)
  case (1 s)
  have ih_once: "scan_once n t = scan_once m t"
    if "length t < length s" "2 * length t + 1 \<le> n" "2 * length t + 1 \<le> m" for t n m
    using 1 that by blast
  have ih_array: "parse_array n t acc = parse_array m t acc"
    if "length t < length s" "2 * length t + 2 \<le> n" "2 * length t + 2 \<le> m" for t n m acc
    using 1 that by blast
  have ih_object: "parse_object n t acc = parse_object m t acc"
    if "length t < length s" "2 * length t + 2 \<le> n" "2 * length t + 2 \<le> m" for t n m acc
    using 1 that by blast
  have once: "scan_once n s = scan_once m s"
    if n: "2 * length s + 1 \<le> n" and m: "2 * length s + 1 \<le> m" for n m
  proof -
    obtain n' m' where nm: "n = Suc n'" "m = Suc m'"
      using n m by (cases n; cases m) auto
    then have n': "2 * length s \<le> n'" and m': "2 * length s \<le> m'" using n m by simp_all
    show ?thesis
    proof (cases s)
      case Nil
      then show ?thesis by (simp add: nm)
    next
      case (Cons c cs)
      have short: "length (skip_ws cs) < length s"
        using skip_ws_length [of cs] Cons by simp
      have bound: "2 * length (skip_ws cs) + 2 \<le> n'" "2 * length (skip_ws cs) + 2 \<le> m'"
        using short n' m' by simp_all
      have obj: "parse_object n' (skip_ws cs) [] = parse_object m' (skip_ws cs) []"
        using short bound by (rule ih_object)
      have arr: "parse_array n' (skip_ws cs) [] = parse_array m' (skip_ws cs) []"
        using short bound by (rule ih_array)
      show ?thesis
      proof (cases "skip_ws cs")
        case Nil
        then show ?thesis by (simp add: nm Cons)
      next
        case inner: (Cons d rest)
        from obj arr show ?thesis unfolding inner by (simp add: nm Cons inner)
      qed
    qed
  qed
  have array: "parse_array n s acc = parse_array m s acc"
    if n: "2 * length s + 2 \<le> n" and m: "2 * length s + 2 \<le> m" for n m acc
  proof -
    obtain n' m' where nm: "n = Suc n'" "m = Suc m'"
      using n m by (cases n; cases m) auto
    then have n': "2 * length s + 1 \<le> n'" and m': "2 * length s + 1 \<le> m'"
      using n m by simp_all
    have same: "scan_once n' s = scan_once m' s" using n' m' by (rule once)
    show ?thesis
    proof (cases "scan_once n' s")
      case None
      with same show ?thesis by (simp add: nm)
    next
      case (Some p)
      obtain w rest where p: "p = (w, rest)" by (cases p)
      have l1: "length rest < length s"
        using Some p scan_once_consumes by blast
      show ?thesis
      proof (cases "skip_ws rest")
        case Nil
        with Some same p show ?thesis by (simp add: nm)
      next
        case (Cons d rest')
        have "length (d # rest') \<le> length rest" using skip_ws_length [of rest] Cons by simp
        with l1 skip_ws_length [of rest']
        have short: "length (skip_ws rest') < length s" and
          two: "length (skip_ws rest') + 2 \<le> length s" by simp_all
        have bound: "2 * length (skip_ws rest') + 2 \<le> n'" "2 * length (skip_ws rest') + 2 \<le> m'"
          using two n' m' by simp_all
        have "parse_array n' (skip_ws rest') (acc @ [w]) = parse_array m' (skip_ws rest') (acc @ [w])"
          using short bound by (rule ih_array)
        with Some same p Cons show ?thesis by (simp add: nm)
      qed
    qed
  qed
  have object: "parse_object n s acc = parse_object m s acc"
    if n: "2 * length s + 2 \<le> n" and m: "2 * length s + 2 \<le> m" for n m acc
  proof -
    obtain n' m' where nm: "n = Suc n'" "m = Suc m'"
      using n m by (cases n; cases m) auto
    then have n': "2 * length s + 1 \<le> n'" and m': "2 * length s + 1 \<le> m'"
      using n m by simp_all
    show ?thesis
    proof (cases s)
      case Nil
      then show ?thesis by (simp add: nm)
    next
      case s: (Cons c cs)
      show ?thesis
      proof (cases "scan_string InText None [] cs")
        case None
        then show ?thesis by (simp add: nm s)
      next
        case (Some p)
        obtain key rest where p: "p = (key, rest)" by (cases p)
        have l1: "length rest < length cs"
          using Some p scan_string_consumes by blast
        show ?thesis
        proof (cases "skip_ws rest")
          case Nil
          with Some p show ?thesis by (simp add: nm s)
        next
          case r1: (Cons d rest1)
          have l2: "length (d # rest1) \<le> length rest"
            using skip_ws_length [of rest] r1 by simp
          have short1: "length (skip_ws rest1) < length s"
            using l1 l2 skip_ws_length [of rest1] s by simp
          have bound1: "2 * length (skip_ws rest1) + 1 \<le> n'" "2 * length (skip_ws rest1) + 1 \<le> m'"
            using short1 n' m' by simp_all
          have same: "scan_once n' (skip_ws rest1) = scan_once m' (skip_ws rest1)"
            using short1 bound1 by (rule ih_once)
          show ?thesis
          proof (cases "scan_once n' (skip_ws rest1)")
            case None
            then have "scan_once m' (skip_ws rest1) = None" using same by simp
            with None Some p r1 show ?thesis by (simp add: nm s)
          next
            case v: (Some pv)
            obtain w rest2 where pv: "pv = (w, rest2)" by (cases pv)
            have vn: "scan_once n' (skip_ws rest1) = Some (w, rest2)" using v pv by simp
            have vm: "scan_once m' (skip_ws rest1) = Some (w, rest2)" using v pv same by simp
            have l3: "length rest2 < length (skip_ws rest1)"
              using vn by (rule scan_once_consumes)
            show ?thesis
            proof (cases "skip_ws rest2")
              case Nil
              with Some p r1 show ?thesis by (simp add: nm s vn vm)
            next
              case r3: (Cons e rest3)
              have l4: "length (e # rest3) \<le> length rest2"
                using skip_ws_length [of rest2] r3 by simp
              have two: "length (skip_ws rest3) + 2 \<le> length s"
                using l3 l4 short1 skip_ws_length [of rest3] by simp
              then have short3: "length (skip_ws rest3) < length s" by simp
              have bound3: "2 * length (skip_ws rest3) + 2 \<le> n'"
                "2 * length (skip_ws rest3) + 2 \<le> m'"
                using two n' m' by simp_all
              have "parse_object n' (skip_ws rest3) (dict_set acc key w) =
                  parse_object m' (skip_ws rest3) (dict_set acc key w)"
                using short3 bound3 by (rule ih_object)
              with Some p r1 r3 show ?thesis by (simp add: nm s vn vm)
            qed
          qed
        qed
      qed
    qed
  qed
  from once array object show ?case by blast
qed

lemma json_loads_fuel:
  assumes "2 * length s + 2 \<le> n"
  shows "scan_once n (skip_ws s) = scan_once (2 * length s + 2) (skip_ws s)"
proof -
  have "2 * length (skip_ws s) + 1 \<le> 2 * length s + 2"
    using skip_ws_length [of s] by simp
  with assms show ?thesis
    using decoder_fuel [of "skip_ws s"] by (meson le_trans)
qed

definition is_object :: "json \<Rightarrow> bool" where
  "is_object v = (case v of JObject ps \<Rightarrow> True | _ \<Rightarrow> False)"

definition object_get :: "json \<Rightarrow> string \<Rightarrow> json option" where
  "object_get v k = (case v of JObject ps \<Rightarrow> map_of ps (map of_char k) | _ \<Rightarrow> None)"

lemma dropWhile_append_stop:
  assumes "ys \<noteq> []" "\<not> P (hd ys)"
  shows "dropWhile P (xs @ ys) = dropWhile P xs @ ys"
proof (induction xs)
  case Nil
  from assms show ?case by (cases ys) simp_all
next
  case (Cons x xs)
  then show ?case by simp
qed

lemma py_strip_around:
  assumes "\<not> py_isspace a" "\<not> py_isspace b"
  shows "py_strip (pre @ a # mid @ b # post) =
           dropWhile py_isspace pre @ a # mid @ b # rev (dropWhile py_isspace (rev post))"
proof -
  have front: "dropWhile py_isspace (pre @ a # mid @ b # post) =
      dropWhile py_isspace pre @ a # mid @ b # post"
    using assms by (intro dropWhile_append_stop) simp_all
  have "rev (dropWhile py_isspace pre @ a # mid @ b # post) =
      rev post @ (b # rev mid @ a # rev (dropWhile py_isspace pre))" by simp
  then have "dropWhile py_isspace (rev (dropWhile py_isspace pre @ a # mid @ b # post)) =
      dropWhile py_isspace (rev post) @ (b # rev mid @ a # rev (dropWhile py_isspace pre))"
    using assms by (simp only: dropWhile_append_stop list.sel list.distinct not_False_eq_True)
  then show ?thesis
    unfolding py_strip_def front by simp
qed

lemma takeWhile_until:
  "c \<notin> set xs \<Longrightarrow> takeWhile (\<lambda>x. x \<noteq> c) (xs @ c # ys) = xs"
  by (induction xs) auto

lemma py_find_first:
  assumes "c \<notin> set pre"
  shows "py_find c (pre @ c # rest) = int (length pre)"
  using takeWhile_until [OF assms, of rest] by (simp add: py_find_def)

lemma py_rfind_last:
  assumes "c \<notin> set post"
  shows "py_rfind c (front @ c # post) = int (length front)"
proof -
  have "c \<notin> set (rev post)" using assms by simp
  then have "takeWhile (\<lambda>x. x \<noteq> c) (rev post @ c # rev front) = rev post"
    by (rule takeWhile_until)
  then show ?thesis by (simp add: py_rfind_def)
qed

text \<open>
  Prose around one object is tolerated, whatever the decoder: when no \<open>{\<close> comes before
  the object, no \<open>}\<close> after it and the whole text is not JSON, the answer is the decoder's
  on the text from the first \<open>{\<close> to the last \<open>}\<close>.
\<close>

lemma parse_ai_json_with_prose:
  assumes pre: "CHR ''{'' \<notin> set pre" and post: "CHR ''}'' \<notin> set post"
    and whole: "loads (py_strip (pre @ CHR ''{'' # mid @ CHR ''}'' # post)) = None"
  shows "parse_ai_json_with loads (pre @ CHR ''{'' # mid @ CHR ''}'' # post) =
    (case loads (CHR ''{'' # mid @ [CHR ''}'']) of
       Some v \<Rightarrow> Inr v
     | None \<Rightarrow> Inl (RuntimeError ''AI response contained invalid JSON.''))"
proof -
  let ?pre = "dropWhile py_isspace pre"
  let ?post = "rev (dropWhile py_isspace (rev post))"
  let ?t = "?pre @ CHR ''{'' # mid @ CHR ''}'' # ?post"
  have sp: "\<not> py_isspace (CHR ''{'')" "\<not> py_isspace (CHR ''}'')"
    by (simp_all add: py_isspace_def)
  have t: "py_strip (pre @ CHR ''{'' # mid @ CHR ''}'' # post) = ?t"
    using sp by (rule py_strip_around)
  have pre': "CHR ''{'' \<notin> set ?pre" using pre set_dropWhileD by fastforce
  have post': "CHR ''}'' \<notin> set ?post" using post set_dropWhileD by fastforce
  have start: "py_find (CHR ''{'') ?t = int (length ?pre)"
    using pre' by (rule py_find_first)
  have "py_rfind (CHR ''}'') ((?pre @ CHR ''{'' # mid) @ CHR ''}'' # ?post) =
      int (length (?pre @ CHR ''{'' # mid))"
    using post' by (rule py_rfind_last)
  then have stop: "py_rfind (CHR ''}'') ?t = int (length ?pre) + 1 + int (length mid)"
    by simp
  have slice: "py_slice ?t (int (length ?pre)) (int (length ?pre) + 1 + int (length mid) + 1) =
      CHR ''{'' # mid @ [CHR ''}'']"
  proof -
    have "nat (int (length ?pre) + 1 + int (length mid) + 1) - nat (int (length ?pre)) =
        Suc (length mid + 1)" by simp
    then show ?thesis by (simp add: py_slice_def)
  qed
  show ?thesis
    unfolding parse_ai_json_with_def Let_def t whole [unfolded t] start stop slice
    by simp
qed

text \<open>
  \<open>_parse_ai_json\<close> returns exactly when the stripped text is not empty and either the
  decoder accepts it, or the decoder rejects it, a \<open>{\<close> comes before the last \<open>}\<close>, and
  the decoder accepts the text between them; otherwise it raises \<open>RuntimeError\<close>.
\<close>

lemma parse_ai_json_with_returns:
  "parse_ai_json_with loads text = Inr v \<longleftrightarrow>
     py_strip text \<noteq> [] \<and>
     (loads (py_strip text) = Some v \<or>
      loads (py_strip text) = None \<and>
      py_find (CHR ''{'') (py_strip text) \<noteq> - 1 \<and> py_rfind (CHR ''}'') (py_strip text) \<noteq> - 1 \<and>
      py_find (CHR ''{'') (py_strip text) < py_rfind (CHR ''}'') (py_strip text) \<and>
      loads (py_slice (py_strip text) (py_find (CHR ''{'') (py_strip text))
               (py_rfind (CHR ''}'') (py_strip text) + 1)) = Some v)"
  by (auto simp: parse_ai_json_with_def Let_def split: option.splits)

lemma parse_ai_json_with_empty:
  "py_strip text = [] \<Longrightarrow>
   parse_ai_json_with loads text = Inl (RuntimeError ''AI response was empty.'')"
  by (simp add: parse_ai_json_with_def)

text \<open>What \<open>json_loads\<close> decodes from a text that begins with \<open>{\<close> is an object.\<close>

lemma parse_object_is_object:
  "parse_object n s acc = Some (v, r) \<Longrightarrow> is_object v"
proof (induction n arbitrary: s acc)
  case 0
  then show ?case by simp
next
  case (Suc n)
  then show ?case
    by (cases s)
      (auto simp: is_object_def split: if_splits option.splits list.splits prod.splits)
qed

lemma scan_once_brace_is_object:
  "scan_once n (CHR ''{'' # cs) = Some (v, r) \<Longrightarrow> is_object v"
  by (cases n)
    (auto simp: is_object_def dest: parse_object_is_object split: if_splits list.splits)

lemma json_loads_brace_is_object:
  assumes "json_loads (CHR ''{'' # cs) = Some v"
  shows "is_object v"
proof -
  have "skip_ws (CHR ''{'' # cs) = CHR ''{'' # cs" by (simp add: skip_ws_def json_ws_def)
  with assms obtain r where "scan_once (2 * length (CHR ''{'' # cs) + 2) (CHR ''{'' # cs) = Some (v, r)"
    by (auto simp: json_loads_def split: option.splits if_splits)
  then show ?thesis by (rule scan_once_brace_is_object)
qed

text \<open>
  The text of the test decodes to an object whose \<open>daily_summary\<close> is \<open>ok\<close>.
\<close>

lemma parse_ai_json_example:
  "parse_ai_json test_raw =
     Inr (JObject [(map of_char ''cards'', JArray []),
                   (map of_char ''daily_summary'', JString (map of_char ''ok''))])"
  by code_simp

lemma parse_ai_json_example_summary:
  "map_sum id (\<lambda>v. object_get v ''daily_summary'') (parse_ai_json test_raw) =
     Inr (Some (JString (map of_char ''ok'')))"
  by code_simp

text \<open>
  C7. The claim has \<open>_parse_ai_json\<close> raise when no JSON object can be located or
  parsed. The code returns whatever \<open>json.loads\<close> makes of the whole stripped text: on
  \<open>[1, 2]\<close>, which holds no object, it returns the list, against its own return type
  \<open>dict[str, Any]\<close>.
\<close>

theorem parse_ai_json_returns_non_object:
  "parse_ai_json ''[1, 2]'' = Inr (JArray [JInt 1, JInt 2]) \<and>
   \<not> is_object (JArray [JInt 1, JInt 2])"
  by code_simp

end
